theory Spec2Isabelle
  imports Complex_Main "HOL-Library.Word" "HOL-Library.Log_Nat"
begin

section \<open>Go's float64, as far as progress.go uses it\<close>

text \<open>
  progress.go stores the count and the size of a \<^verbatim>\<open>Progress\<close> as \<^verbatim>\<open>float64\<close> and uses four
  float operations: the conversion \<^verbatim>\<open>float64(int64)\<close>, the division \<^verbatim>\<open>/\<close>, the comparisons
  \<^verbatim>\<open>==\<close>, \<^verbatim>\<open>>\<close>, \<^verbatim>\<open>>=\<close> and the conversion back, \<^verbatim>\<open>int64(float64)\<close>. They are modelled as IEEE 754
  binary64 with round-to-nearest, ties-to-even: a value is a NaN, an infinity, the negative
  zero, or a finite number, kept as the rational it denotes (\<open>Finite 0\<close> is the positive zero).
\<close>

type_synonym int64 = "64 word"

datatype float64 = NaN | PosInf | NegInf | NegZero | Finite rat

text \<open>\<open>ilog2 x\<close> is the binary exponent of a positive rational: \<open>2 powi ilog2 x \<le> x < 2 powi (ilog2 x + 1)\<close>.\<close>

definition ilog2 :: "rat \<Rightarrow> int" where
  "ilog2 x = (case quotient_of x of (p, q) \<Rightarrow>
     (let d = bitlen p - bitlen q in if 2 powi d \<le> x then d else d - 1))"

text \<open>Rounding to the nearest integer, a tie to the even one.\<close>

definition round_even :: "rat \<Rightarrow> int" where
  "round_even x = (let f = \<lfloor>x\<rfloor>; r = x - of_int f in
     if r < 1 / 2 then f else if 1 / 2 < r then f + 1 else if even f then f else f + 1)"

text \<open>
  The nearest number with a 53-bit significand to a positive rational, the exponent unbounded
  above and stopped at -1022 below (so that the subnormal numbers are multiples of
  \<open>2 powi - 1074\<close>).
\<close>

definition round_mag :: "rat \<Rightarrow> rat" where
  "round_mag x = (let e = max (ilog2 x) (- 1022) - 52 in
     of_int (round_even (x / 2 powi e)) * 2 powi e)"

definition fzero :: "bool \<Rightarrow> float64" where
  "fzero neg = (if neg then NegZero else Finite 0)"

definition finf :: "bool \<Rightarrow> float64" where
  "finf neg = (if neg then NegInf else PosInf)"

text \<open>The float64 of sign \<open>neg\<close> nearest to the magnitude \<open>x \<ge> 0\<close>; it overflows to an infinity.\<close>

definition float64_round :: "bool \<Rightarrow> rat \<Rightarrow> float64" where
  "float64_round neg x =
     (if x = 0 then fzero neg
      else let v = round_mag x in
        if 2 ^ 1024 \<le> v then finf neg
        else if v = 0 then fzero neg
        else Finite (if neg then - v else v))"

fun fneg :: "float64 \<Rightarrow> bool" where
  "fneg NegInf = True"
| "fneg NegZero = True"
| "fneg (Finite r) = (r < 0)"
| "fneg _ = False"

fun is_inf :: "float64 \<Rightarrow> bool" where
  "is_inf PosInf = True"
| "is_inf NegInf = True"
| "is_inf _ = False"

fun is_zero :: "float64 \<Rightarrow> bool" where
  "is_zero NegZero = True"
| "is_zero (Finite r) = (r = 0)"
| "is_zero _ = False"

fun mag :: "float64 \<Rightarrow> rat" where
  "mag (Finite r) = \<bar>r\<bar>"
| "mag _ = 0"

text \<open>\<^verbatim>\<open>a / b\<close> on float64: no operand makes it panic.\<close>

definition fdiv :: "float64 \<Rightarrow> float64 \<Rightarrow> float64" where
  "fdiv a b =
     (if a = NaN \<or> b = NaN then NaN
      else if is_inf a then (if is_inf b then NaN else finf (fneg a \<noteq> fneg b))
      else if is_inf b then fzero (fneg a \<noteq> fneg b)
      else if is_zero b then (if is_zero a then NaN else finf (fneg a \<noteq> fneg b))
      else float64_round (fneg a \<noteq> fneg b) (mag a / mag b))"

text \<open>The comparisons: a NaN compares false with everything, the two zeros are equal.\<close>

fun ord_inf :: "float64 \<Rightarrow> int" where
  "ord_inf PosInf = 1"
| "ord_inf NegInf = - 1"
| "ord_inf _ = 0"

fun fval :: "float64 \<Rightarrow> rat" where
  "fval (Finite r) = r"
| "fval _ = 0"

definition feq :: "float64 \<Rightarrow> float64 \<Rightarrow> bool" where
  "feq a b = (a \<noteq> NaN \<and> b \<noteq> NaN \<and> ord_inf a = ord_inf b \<and> fval a = fval b)"

definition flt :: "float64 \<Rightarrow> float64 \<Rightarrow> bool" where
  "flt a b = (a \<noteq> NaN \<and> b \<noteq> NaN \<and>
     (ord_inf a < ord_inf b \<or> (ord_inf a = ord_inf b \<and> fval a < fval b)))"

definition fgt :: "float64 \<Rightarrow> float64 \<Rightarrow> bool" where
  "fgt a b = flt b a"

definition fge :: "float64 \<Rightarrow> float64 \<Rightarrow> bool" where
  "fge a b = (flt b a \<or> feq a b)"

text \<open>\<^verbatim>\<open>float64(c)\<close> for an int64: the nearest float64.\<close>

definition float64_of_int :: "int \<Rightarrow> float64" where
  "float64_of_int k = float64_round (k < 0) (of_int \<bar>k\<bar>)"

definition float64_of_int64 :: "int64 \<Rightarrow> float64" where
  "float64_of_int64 c = float64_of_int (sint c)"

text \<open>
  \<^verbatim>\<open>int64(f)\<close>: the fraction is discarded. Where the truncated value is no int64 (and for a NaN
  or an infinity) Go leaves the result to the implementation; \<open>impl\<close> is that choice.
\<close>

definition trunc :: "rat \<Rightarrow> int" where
  "trunc r = (if 0 \<le> r then \<lfloor>r\<rfloor> else \<lceil>r\<rceil>)"

definition in_int64 :: "int \<Rightarrow> bool" where
  "in_int64 i = (- (2 ^ 63) \<le> i \<and> i < 2 ^ 63)"

fun int64_of_float64 :: "(float64 \<Rightarrow> int64) \<Rightarrow> float64 \<Rightarrow> int64" where
  "int64_of_float64 impl (Finite r) = (if in_int64 (trunc r) then word_of_int (trunc r) else impl (Finite r))"
| "int64_of_float64 impl NegZero = 0"
| "int64_of_float64 impl f = impl f"

text \<open>
  One such choice, for the examples: amd64's conversion instruction gives the least int64
  (its ``integer indefinite'') whenever the value does not fit.
\<close>

definition impl_amd64 :: "float64 \<Rightarrow> int64" where
  "impl_amd64 f = word_of_int (- (2 ^ 63))"

section \<open>The part of package time that progress.go calls\<close>

text \<open>
  Package time is not part of the repository. A \<^verbatim>\<open>time.Time\<close> is taken as an instant on
  one clock, the nanoseconds since the zero Time, with no bound on its range; a
  \<^verbatim>\<open>time.Duration\<close> is an int64 of nanoseconds. \<^verbatim>\<open>IsZero\<close> holds of the zero Time only,
  \<^verbatim>\<open>Sub\<close> saturates at the least and the greatest Duration, as its documentation says, and
  \<^verbatim>\<open>Add\<close> moves the instant by the Duration.
\<close>

type_synonym time = int
type_synonym Duration = int64

definition zero_time :: time where
  "zero_time = 0"

definition IsZero :: "time \<Rightarrow> bool" where
  "IsZero t = (t = 0)"

definition Time_Sub :: "time \<Rightarrow> time \<Rightarrow> Duration" where
  "Time_Sub t u =
     (if t - u < - (2 ^ 63) then word_of_int (- (2 ^ 63))
      else if 2 ^ 63 \<le> t - u then word_of_int (2 ^ 63 - 1)
      else word_of_int (t - u))"

definition Time_Add :: "time \<Rightarrow> Duration \<Rightarrow> time" where
  "Time_Add t d = t + sint d"

section \<open>Progress\<close>

record Progress =
  p_n :: float64
  p_size :: float64
  p_estimated :: time

definition N :: "(float64 \<Rightarrow> int64) \<Rightarrow> Progress \<Rightarrow> int64" where
  "N impl p = int64_of_float64 impl (p_n p)"

definition Size :: "(float64 \<Rightarrow> int64) \<Rightarrow> Progress \<Rightarrow> int64" where
  "Size impl p = int64_of_float64 impl (p_size p)"

definition Started :: "Progress \<Rightarrow> bool" where
  "Started p = fgt (p_n p) (Finite 0)"

definition Complete :: "Progress \<Rightarrow> bool" where
  "Complete p = fge (p_n p) (p_size p)"

definition Percent :: "Progress \<Rightarrow> float64" where
  "Percent p =
     (if feq (p_n p) (Finite 0) then Finite 0
      else if feq (p_n p) (p_size p) then Finite 100
      else fdiv (Finite 100) (fdiv (p_size p) (p_n p)))"

text \<open>\<^verbatim>\<open>Remaining\<close> reads the clock; \<open>now\<close> is what \<^verbatim>\<open>time.Now()\<close> returns.\<close>

definition Remaining :: "time \<Rightarrow> Progress \<Rightarrow> Duration" where
  "Remaining now p = Time_Sub (p_estimated p) now"

definition Estimated :: "Progress \<Rightarrow> time" where
  "Estimated p = p_estimated p"

section \<open>NewTicker\<close>

text \<open>
  The goroutine of \<^verbatim>\<open>NewTicker\<close> loops over a \<^verbatim>\<open>select\<close>. An event is the case the \<^verbatim>\<open>select\<close>
  took: \<open>Done\<close> when the context's channel was ready, \<open>After c now\<close> when the timer fired,
  with the value \<open>c\<close> that \<^verbatim>\<open>counter.N()\<close> then returned and the reading \<open>now\<close> of
  \<^verbatim>\<open>time.Now()\<close> in that iteration. The consumer is taken to receive every value sent.
  The state of the goroutine is its variable \<^verbatim>\<open>started\<close>, the values sent on \<^verbatim>\<open>ch\<close> so far,
  and whether it has returned (the deferred \<^verbatim>\<open>close(ch)\<close> has run).
\<close>

datatype event = Done | After int64 time

record goroutine =
  g_started :: time
  g_sent :: "Progress list"
  g_closed :: bool

text \<open>The estimate of the \<^verbatim>\<open>else\<close> branch, lines 127 to 131.\<close>

definition estimate :: "(float64 \<Rightarrow> int64) \<Rightarrow> time \<Rightarrow> time \<Rightarrow> Progress \<Rightarrow> time" where
  "estimate impl started now progress =
     (let ratio = fdiv (p_n progress) (p_size progress);
          past = float64_of_int64 (Time_Sub now started);
          future = int64_of_float64 impl (fdiv past ratio)
      in Time_Add started future)"

text \<open>
  One iteration of the loop, lines 113 to 137:
  \<^verbatim>\<open>
  select {
  case <-ctx.Done():
      return
  case <-time.After(d):
      progress := Progress{n: float64(counter.N()), size: float64(size)}
      if started.IsZero() {
          if progress.Started() { started = time.Now() }
      } else {
          now := time.Now()
          ratio := progress.n / progress.size
          past := float64(now.Sub(started))
          future := time.Duration(past / ratio)
          progress.estimated = started.Add(future)
      }
      ch <- progress
      if progress.Complete() { return }
  }
  \<close>
\<close>

fun iteration :: "(float64 \<Rightarrow> int64) \<Rightarrow> int64 \<Rightarrow> goroutine \<Rightarrow> event \<Rightarrow> goroutine" where
  "iteration impl sz g Done = g\<lparr>g_closed := True\<rparr>"
| "iteration impl sz g (After c now) =
     (let progress = \<lparr>p_n = float64_of_int64 c, p_size = float64_of_int64 sz, p_estimated = zero_time\<rparr>;
          started = (if IsZero (g_started g) \<and> Started progress then now else g_started g);
          progress = (if IsZero (g_started g) then progress
                      else progress\<lparr>p_estimated := estimate impl (g_started g) now progress\<rparr>)
      in \<lparr>g_started = started, g_sent = g_sent g @ [progress], g_closed = Complete progress\<rparr>)"

fun run :: "(float64 \<Rightarrow> int64) \<Rightarrow> int64 \<Rightarrow> goroutine \<Rightarrow> event list \<Rightarrow> goroutine" where
  "run impl sz g [] = g"
| "run impl sz g (e # es) = (if g_closed g then g else run impl sz (iteration impl sz g e) es)"

definition NewTicker :: "(float64 \<Rightarrow> int64) \<Rightarrow> int64 \<Rightarrow> event list \<Rightarrow> goroutine" where
  "NewTicker impl sz es = run impl sz \<lparr>g_started = zero_time, g_sent = [], g_closed = False\<rparr> es"

text \<open>
  For the statements below: the value an iteration sends, and the reading and the clock of
  an event.
\<close>

definition snapshot :: "(float64 \<Rightarrow> int64) \<Rightarrow> int64 \<Rightarrow> time \<Rightarrow> int64 \<Rightarrow> time \<Rightarrow> Progress" where
  "snapshot impl sz started c now =
     (let progress = \<lparr>p_n = float64_of_int64 c, p_size = float64_of_int64 sz, p_estimated = zero_time\<rparr>
      in if IsZero started then progress
         else progress\<lparr>p_estimated := estimate impl started now progress\<rparr>)"

fun is_tick :: "event \<Rightarrow> bool" where
  "is_tick (After c now) = True"
| "is_tick Done = False"

fun reading :: "event \<Rightarrow> int64" where
  "reading (After c now) = c"
| "reading Done = 0"

fun clock :: "event \<Rightarrow> time" where
  "clock (After c now) = now"
| "clock Done = zero_time"

text \<open>
  \<open>first_activity ps k\<close>: the value at index \<open>k\<close> is the first of \<open>ps\<close> with a positive
  count.
\<close>

definition first_activity :: "Progress list \<Rightarrow> nat \<Rightarrow> bool" where
  "first_activity ps k = (k < length ps \<and> Started (ps ! k) \<and> (\<forall>p\<in>set (take k ps). \<not> Started p))"

text \<open>\<open>is_float64 x\<close>: the rational \<open>x\<close> is the value of a finite float64.\<close>

definition is_float64 :: "rat \<Rightarrow> bool" where
  "is_float64 x = (x = 0 \<or> (round_mag \<bar>x\<bar> = \<bar>x\<bar> \<and> \<bar>x\<bar> < 2 ^ 1024))"

text \<open>A run for the examples: five ticks against a size of 100.\<close>

definition example_run :: "event list" where
  "example_run = [After 0 1000, After 25 2000, After 50 3000, After 100 4000, After 120 5000]"

section \<open>Rounding\<close>

lemma pow2_pos: "(0::rat) < 2 powi e"
  by simp

lemma pow2_less_iff: "(2::rat) powi a < 2 powi b \<longleftrightarrow> a < b"
proof
  assume "(2::rat) powi a < 2 powi b"
  show "a < b"
  proof (rule ccontr)
    assume "\<not> a < b"
    then have "b \<le> a" by simp
    then have "(2::rat) powi b \<le> 2 powi a" by (intro power_int_increasing) simp_all
    with \<open>(2::rat) powi a < 2 powi b\<close> show False by simp
  qed
next
  assume "a < b"
  then show "(2::rat) powi a < 2 powi b" by (intro power_int_strict_increasing) simp_all
qed

lemma pow2_le_iff: "(2::rat) powi a \<le> 2 powi b \<longleftrightarrow> a \<le> b"
  using pow2_less_iff [of b a] by (simp add: not_less [symmetric])

lemma pow2_add: "(2::rat) powi (a + b) = 2 powi a * 2 powi b"
  by (simp add: power_int_add)

lemma pow2_diff: "(2::rat) powi (a - b) = 2 powi a / 2 powi b"
  by (simp add: power_int_diff)

lemma pow2_Suc: "(2::rat) powi (a + 1) = 2 * 2 powi a"
  by (simp add: pow2_add)

lemma ilog2_bounds:
  assumes "0 < x"
  shows "2 powi ilog2 x \<le> x \<and> x < 2 powi (ilog2 x + 1)"
proof -
  obtain p q where pq: "quotient_of x = (p, q)" by (cases "quotient_of x")
  then have q: "0 < q" and x: "x = of_int p / of_int q"
    by (rule quotient_of_denom_pos, rule quotient_of_div)
  from assms x q have p: "0 < p" by (simp add: zero_less_divide_iff)
  define bp bq where "bp = bitlen p" and "bq = bitlen q"
  from bitlen_bounds [OF p] have "2 ^ nat (bp - 1) \<le> p" "p < 2 ^ nat bp" by (simp_all add: bp_def)
  moreover from bitlen_bounds [OF q] have "2 ^ nat (bq - 1) \<le> q" "q < 2 ^ nat bq" by (simp_all add: bq_def)
  moreover have bp1: "1 \<le> bp" using p bitlen_eq_zero_iff [of p] bitlen_nonneg [of p] by (simp add: bp_def)
  moreover have bq1: "1 \<le> bq" using q bitlen_eq_zero_iff [of q] bitlen_nonneg [of q] by (simp add: bq_def)
  ultimately have
    P: "2 powi (bp - 1) \<le> (of_int p :: rat)" "(of_int p :: rat) < 2 powi bp" and
    Q: "2 powi (bq - 1) \<le> (of_int q :: rat)" "(of_int q :: rat) < 2 powi bq"
    by (simp_all add: power_int_def of_int_le_numeral_power_cancel_iff
        numeral_power_le_of_int_cancel_iff of_int_less_numeral_power_cancel_iff)
  have qpos: "(0::rat) < of_int q" using q by simp
  have up: "x < 2 powi (bp - bq + 1)"
  proof -
    have "of_int p * 2 powi (bq - 1) < (2 powi bp :: rat) * of_int q"
      using P(2) Q(1) qpos p by (intro mult_less_le_imp_less) simp_all
    then have "x * (2 powi (bq - 1) * of_int q) < 2 powi bp * of_int q"
      using qpos by (simp add: x)
    then have "x * 2 powi (bq - 1) < 2 powi bp" using qpos by simp
    then have "x < 2 powi bp / 2 powi (bq - 1)" by (simp add: pos_less_divide_eq)
    also have "\<dots> = 2 powi (bp - (bq - 1))" by (simp add: pow2_diff)
    finally show ?thesis by (simp add: algebra_simps)
  qed
  have low: "2 powi (bp - bq - 1) < x"
  proof -
    have "2 powi (bp - 1) * of_int q < of_int p * (2 powi bq :: rat)"
      using P(1) Q(2) qpos p by (intro mult_le_less_imp_less) simp_all
    then have "2 powi (bp - 1) * of_int q < x * of_int q * (2 powi bq :: rat)"
      using qpos by (simp add: x)
    then have "2 powi (bp - 1) < x * (2 powi bq :: rat)" using qpos by simp
    then have "2 powi (bp - 1) / 2 powi bq < x" by (simp add: pos_divide_less_eq)
    also have "2 powi (bp - 1) / 2 powi bq = (2::rat) powi (bp - 1 - bq)" by (simp add: pow2_diff)
    finally show ?thesis by (simp add: algebra_simps)
  qed
  have il: "ilog2 x = (if 2 powi (bp - bq) \<le> x then bp - bq else bp - bq - 1)"
    by (simp add: ilog2_def pq bp_def bq_def Let_def)
  show ?thesis
  proof (cases "2 powi (bp - bq) \<le> x")
    case True
    with up il show ?thesis by simp
  next
    case False
    with low il show ?thesis by simp
  qed
qed

lemma ilog2_unique:
  assumes "2 powi e \<le> x" "x < 2 powi (e + 1)"
  shows "ilog2 x = e"
proof -
  have "0 < x" using assms(1) pow2_pos [of e] by (rule less_le_trans [rotated])
  from ilog2_bounds [OF this] have b: "2 powi ilog2 x \<le> x" "x < 2 powi (ilog2 x + 1)" by simp_all
  from b(1) assms(2) have "(2::rat) powi ilog2 x < 2 powi (e + 1)" by simp
  then have "ilog2 x < e + 1" by (simp add: pow2_less_iff)
  moreover from assms(1) b(2) have "(2::rat) powi e < 2 powi (ilog2 x + 1)" by simp
  then have "e < ilog2 x + 1" by (simp add: pow2_less_iff)
  ultimately show ?thesis by simp
qed

lemma ilog2_mono: "0 < x \<Longrightarrow> x \<le> y \<Longrightarrow> ilog2 x \<le> ilog2 y"
proof -
  assume x: "0 < x" and xy: "x \<le> y"
  then have y: "0 < y" by simp
  from ilog2_bounds [OF x] ilog2_bounds [OF y] xy
  have "(2::rat) powi ilog2 x < 2 powi (ilog2 y + 1)" by simp
  then show ?thesis by (simp add: pow2_less_iff)
qed

lemma round_even_of_int: "round_even (of_int k) = k"
  by (simp add: round_even_def)

lemma round_even_mono: "x \<le> y \<Longrightarrow> round_even x \<le> round_even y"
proof -
  assume xy: "x \<le> y"
  then have f: "\<lfloor>x\<rfloor> \<le> \<lfloor>y\<rfloor>" by (rule floor_mono)
  have x: "\<lfloor>x\<rfloor> \<le> round_even x" "round_even x \<le> \<lfloor>x\<rfloor> + 1"
    by (simp_all add: round_even_def Let_def)
  have y: "\<lfloor>y\<rfloor> \<le> round_even y" by (simp add: round_even_def Let_def)
  show ?thesis
  proof (cases "\<lfloor>x\<rfloor> = \<lfloor>y\<rfloor>")
    case True
    with xy show ?thesis by (auto simp: round_even_def Let_def)
  next
    case False
    with f x y show ?thesis by linarith
  qed
qed

lemma round_even_ge: "of_int k \<le> x \<Longrightarrow> k \<le> round_even x"
  using round_even_mono [of "of_int k" x] by (simp add: round_even_of_int)

lemma round_even_le: "x \<le> of_int k \<Longrightarrow> round_even x \<le> k"
  using round_even_mono [of x "of_int k"] by (simp add: round_even_of_int)

lemma round_even_above_half: "of_int k + 1 / 2 < x \<Longrightarrow> k + 1 \<le> round_even x"
proof -
  assume h: "of_int k + 1 / 2 < x"
  then have kf: "k \<le> \<lfloor>x\<rfloor>" by (simp add: le_floor_iff)
  show ?thesis
  proof (cases "k = \<lfloor>x\<rfloor>")
    case True
    with h have "1 / 2 < x - of_int \<lfloor>x\<rfloor>" by simp
    then show ?thesis using True by (simp add: round_even_def Let_def)
  next
    case False
    with kf have "k + 1 \<le> \<lfloor>x\<rfloor>" by simp
    moreover have "\<lfloor>x\<rfloor> \<le> round_even x" by (simp add: round_even_def Let_def)
    ultimately show ?thesis by simp
  qed
qed

lemma pow2_split52: "(2::rat) powi E = of_int (2 ^ 52) * 2 powi (E - 52)"
proof -
  have "(2::rat) powi (52 + (E - 52)) = 2 powi 52 * 2 powi (E - 52)" by (rule pow2_add)
  then show ?thesis by simp
qed

lemma pow2_split53: "(2::rat) powi (E + 1) = of_int (2 ^ 53) * 2 powi (E - 52)"
proof -
  have "(2::rat) powi (53 + (E - 52)) = 2 powi 53 * 2 powi (E - 52)" by (rule pow2_add)
  moreover have "53 + (E - 52) = E + 1" by simp
  ultimately show ?thesis by simp
qed

lemma scaled_mono: "(of_int a :: rat) * 2 powi s \<le> of_int b * 2 powi s \<longleftrightarrow> a \<le> b"
  by simp

lemma scaled_less: "(of_int a :: rat) * 2 powi s < of_int b * 2 powi s \<longleftrightarrow> a < b"
  by simp

lemma div_scale_le: "x \<le> of_int k * 2 powi s \<longleftrightarrow> x / 2 powi s \<le> (of_int k :: rat)"
  by (simp add: pos_divide_le_eq)

lemma div_scale_ge: "of_int k * 2 powi s \<le> x \<longleftrightarrow> (of_int k :: rat) \<le> x / 2 powi s"
  by (simp add: pos_le_divide_eq)

lemma div_scale_less: "of_int k * 2 powi s < x \<longleftrightarrow> (of_int k :: rat) < x / 2 powi s"
  by (simp add: pos_less_divide_eq)

lemma round_mag_eq:
  assumes "2 powi e \<le> x" "x < 2 powi (e + 1)"
  shows "round_mag x =
    of_int (round_even (x / 2 powi (max e (- 1022) - 52))) * 2 powi (max e (- 1022) - 52)"
  by (simp add: round_mag_def Let_def ilog2_unique [OF assms])

lemma round_mag_0: "round_mag 0 = 0"
proof -
  have "round_even (0 / 2 powi e) = 0" for e by (simp add: round_even_def)
  then show ?thesis by (simp add: round_mag_def)
qed

lemma round_mag_nonneg: "0 \<le> x \<Longrightarrow> 0 \<le> round_mag x"
proof -
  assume "0 \<le> x"
  then have "0 \<le> x / 2 powi e" for e by simp
  then have "0 \<le> round_even (x / 2 powi e)" for e
    using round_even_ge [of 0 "x / 2 powi e"] by simp
  then show ?thesis by (simp add: round_mag_def Let_def)
qed

lemma round_mag_lower:
  assumes "0 < x" "- 1022 \<le> ilog2 x"
  shows "2 powi ilog2 x \<le> round_mag x"
proof -
  define s where "s = ilog2 x - 52"
  have rm: "round_mag x = of_int (round_even (x / 2 powi s)) * 2 powi s"
    using assms(2) by (simp add: round_mag_def Let_def s_def max_def)
  have sp: "(2::rat) powi ilog2 x = of_int (2 ^ 52) * 2 powi s"
    unfolding s_def by (rule pow2_split52)
  from ilog2_bounds [OF assms(1)] have "of_int (2 ^ 52) * 2 powi s \<le> x" by (simp only: sp)
  then have "(of_int (2 ^ 52) :: rat) \<le> x / 2 powi s" by (simp only: div_scale_ge)
  then have "2 ^ 52 \<le> round_even (x / 2 powi s)" by (rule round_even_ge)
  then show ?thesis unfolding rm sp by (simp only: scaled_mono)
qed

lemma round_mag_upper:
  assumes "0 < x"
  shows "round_mag x \<le> 2 powi (max (ilog2 x) (- 1022) + 1)"
proof -
  define E where "E = max (ilog2 x) (- 1022)"
  define s where "s = E - 52"
  have rm: "round_mag x = of_int (round_even (x / 2 powi s)) * 2 powi s"
    by (simp add: round_mag_def Let_def s_def E_def)
  have sp: "(2::rat) powi (E + 1) = of_int (2 ^ 53) * 2 powi s"
    unfolding s_def by (rule pow2_split53)
  from ilog2_bounds [OF assms(1)] have "x < 2 powi (ilog2 x + 1)" by simp
  also have "\<dots> \<le> 2 powi (E + 1)" by (simp add: pow2_le_iff E_def)
  finally have "x \<le> of_int (2 ^ 53) * 2 powi s" by (simp only: sp)
  then have "x / 2 powi s \<le> (of_int (2 ^ 53) :: rat)" by (simp only: div_scale_le)
  then have "round_even (x / 2 powi s) \<le> 2 ^ 53" by (rule round_even_le)
  then show ?thesis unfolding rm sp E_def [symmetric] by (simp only: scaled_mono)
qed

lemma round_mag_mono:
  assumes "0 < x" "x \<le> y"
  shows "round_mag x \<le> round_mag y"
proof -
  from assms have y: "0 < y" by simp
  define Ex Ey where "Ex = max (ilog2 x) (- 1022)" and "Ey = max (ilog2 y) (- 1022)"
  have le: "Ex \<le> Ey" using ilog2_mono [OF assms] by (simp add: Ex_def Ey_def)
  have rx: "round_mag x = of_int (round_even (x / 2 powi (Ex - 52))) * 2 powi (Ex - 52)"
    and ry: "round_mag y = of_int (round_even (y / 2 powi (Ey - 52))) * 2 powi (Ey - 52)"
    by (simp_all add: round_mag_def Let_def Ex_def Ey_def)
  show ?thesis
  proof (cases "Ex = Ey")
    case True
    have "x / 2 powi (Ey - 52) \<le> y / 2 powi (Ey - 52)"
      using assms(2) by (simp add: divide_right_mono)
    then have "round_even (x / 2 powi (Ey - 52)) \<le> round_even (y / 2 powi (Ey - 52))"
      by (rule round_even_mono)
    then show ?thesis unfolding rx ry True by (simp only: scaled_mono)
  next
    case False
    with le have lt: "Ex < Ey" by simp
    then have n: "- 1022 \<le> ilog2 y" "Ey = ilog2 y" unfolding Ex_def Ey_def by linarith+
    have "round_mag x \<le> 2 powi (Ex + 1)" unfolding Ex_def by (rule round_mag_upper [OF assms(1)])
    also have "\<dots> \<le> 2 powi ilog2 y" using lt n(2) by (simp add: pow2_le_iff)
    also have "\<dots> \<le> round_mag y" by (rule round_mag_lower [OF y n(1)])
    finally show ?thesis .
  qed
qed

text \<open>Every \<open>m * 2 powi j\<close> with \<open>m\<close> of at most 53 bits and \<open>j \<ge> - 1074\<close> is a float64: rounding keeps it.\<close>

lemma round_mag_exact_less:
  assumes m: "0 < m" "m < 2 ^ 53" and j: "- 1074 \<le> j"
  shows "round_mag (of_int m * 2 powi j) = of_int m * 2 powi j"
proof -
  define x :: rat where "x = of_int m * 2 powi j"
  have x: "0 < x" using m by (simp add: x_def)
  define E where "E = max (ilog2 x) (- 1022)"
  define s where "s = E - 52"
  have rm: "round_mag x = of_int (round_even (x / 2 powi s)) * 2 powi s"
    by (simp add: round_mag_def Let_def s_def E_def)
  have "x < of_int (2 ^ 53) * 2 powi j"
    unfolding x_def using m(2) by (simp only: scaled_less)
  also have "\<dots> = 2 powi (j + 53)" using pow2_split53 [of "j + 52"] by (simp add: add.commute)
  finally have "(2::rat) powi ilog2 x < 2 powi (j + 53)"
    using ilog2_bounds [OF x] by simp
  then have "ilog2 x < j + 53" by (simp only: pow2_less_iff)
  with j have sj: "s \<le> j" by (simp add: s_def E_def)
  define d where "d = nat (j - s)"
  have "2 powi j = (2::rat) powi (s + int d)" using sj by (simp add: d_def)
  also have "\<dots> = 2 powi s * 2 ^ d" by (simp add: pow2_add)
  finally have q: "x / 2 powi s = of_int (m * 2 ^ d)" by (simp add: x_def)
  then have "round_even (x / 2 powi s) = m * 2 ^ d" by (simp only: round_even_of_int)
  then have "round_mag x = of_int (m * 2 ^ d) * 2 powi s" by (simp only: rm)
  also have "\<dots> = x / 2 powi s * 2 powi s" by (simp only: q)
  also have "\<dots> = x" by simp
  finally show ?thesis by (simp only: x_def)
qed

lemma round_mag_exact:
  assumes m: "0 < m" "m \<le> 2 ^ 53" and j: "- 1074 \<le> j"
  shows "round_mag (of_int m * 2 powi j) = of_int m * 2 powi j"
proof (cases "m = 2 ^ 53")
  case False
  with m have "m < 2 ^ 53" by simp
  then show ?thesis using m(1) j by (intro round_mag_exact_less)
next
  case True
  have "(of_int m :: rat) * 2 powi j = of_int (2 ^ 52) * 2 powi (j + 1)"
    using pow2_add [of j 1] by (simp add: True)
  moreover have "round_mag (of_int (2 ^ 52) * 2 powi (j + 1)) = of_int (2 ^ 52) * 2 powi (j + 1)"
    using j by (intro round_mag_exact_less) simp_all
  ultimately show ?thesis by simp
qed

lemma round_mag_int: "0 < k \<Longrightarrow> k \<le> 2 ^ 53 \<Longrightarrow> round_mag (of_int k) = of_int k"
  using round_mag_exact [of k 0] by simp

lemma round_mag_1: "round_mag 1 = 1"
  using round_mag_int [of 1] by simp

lemma round_mag_pow2: "- 1074 \<le> j \<Longrightarrow> round_mag (2 powi j) = 2 powi j"
  using round_mag_exact [of 1 j] by simp

section \<open>The conversions between int64 and float64\<close>

lemma sint64_range: "- (2 ^ 63) \<le> sint (c :: int64)" "sint (c :: int64) < 2 ^ 63"
  using sint_ge [of c] sint_lt [of c] by simp_all

lemma round_mag_int_bounds:
  assumes "1 \<le> k" "k \<le> 2 ^ 63"
  shows "1 \<le> round_mag (of_int k)" "round_mag (of_int k) \<le> 2 ^ 63"
proof -
  have "round_mag 1 \<le> round_mag (of_int k)"
    using assms(1) by (intro round_mag_mono) simp_all
  then show "1 \<le> round_mag (of_int k)" by (simp only: round_mag_1)
  have "0 < (of_int k :: rat)" using assms(1) by simp
  moreover have "(of_int k :: rat) \<le> 2 powi 63"
  proof -
    have "(of_int k :: rat) \<le> of_int (2 ^ 63)" using assms(2) by (simp only: of_int_le_iff)
    then show ?thesis by simp
  qed
  ultimately have "round_mag (of_int k) \<le> round_mag (2 powi 63)" by (rule round_mag_mono)
  also have "\<dots> = 2 powi 63" by (rule round_mag_pow2) simp
  finally show "round_mag (of_int k) \<le> 2 ^ 63" by simp
qed

text \<open>
  The float64 of an integer of int64's range is finite, has the sign of the integer, and its
  magnitude is the integer's, rounded.
\<close>

lemma float64_of_int_Finite:
  assumes "\<bar>k\<bar> \<le> 2 ^ 63"
  shows "float64_of_int k =
     Finite (if k < 0 then - round_mag (of_int \<bar>k\<bar>) else round_mag (of_int \<bar>k\<bar>))"
proof (cases "k = 0")
  case True
  then show ?thesis by (simp add: float64_of_int_def float64_round_def fzero_def round_mag_0)
next
  case False
  define a where "a = \<bar>k\<bar>"
  from False assms have a: "1 \<le> a" "a \<le> 2 ^ 63" by (simp_all add: a_def)
  from round_mag_int_bounds [OF a] have b: "1 \<le> round_mag (of_int a)" "round_mag (of_int a) \<le> 2 ^ 63" .
  have "round_mag (of_int a) < 2 ^ 1024"
  proof -
    have "(2::rat) ^ 63 < 2 ^ 1024" by (rule power_strict_increasing) simp_all
    with b(2) show ?thesis by (rule le_less_trans)
  qed
  then have 1: "\<not> 2 ^ 1024 \<le> round_mag (of_int a)" by simp
  have 2: "round_mag (of_int a) \<noteq> 0" using b(1) by simp
  have 3: "(of_int a :: rat) \<noteq> 0" using a(1) by simp
  show ?thesis
    unfolding float64_of_int_def float64_round_def Let_def a_def [symmetric]
    by (simp only: 1 2 3 if_False)
qed

lemma float64_of_int_0: "float64_of_int 0 = Finite 0"
  by (simp add: float64_of_int_def float64_round_def fzero_def)

lemma float64_of_int_exact:
  assumes "\<bar>k\<bar> \<le> 2 ^ 53"
  shows "float64_of_int k = Finite (of_int k)"
proof (cases "k = 0")
  case True
  then show ?thesis by (simp add: float64_of_int_0)
next
  case False
  from assms have r: "\<bar>k\<bar> \<le> 2 ^ 63" by simp
  from False assms have e: "round_mag (of_int \<bar>k\<bar>) = of_int \<bar>k\<bar>"
    by (intro round_mag_int) simp_all
  show ?thesis unfolding float64_of_int_Finite [OF r] e by simp
qed

lemma float64_of_int_pos:
  assumes "\<bar>k\<bar> \<le> 2 ^ 63"
  shows "0 < fval (float64_of_int k) \<longleftrightarrow> 0 < k"
proof (cases "k = 0")
  case True
  then show ?thesis by (simp add: float64_of_int_0)
next
  case False
  define R where "R = round_mag (of_int \<bar>k\<bar>)"
  from False have a: "1 \<le> \<bar>k\<bar>" by simp
  from round_mag_int_bounds (1) [OF a assms] have R: "1 \<le> R" by (simp only: R_def)
  have "float64_of_int k = Finite (if k < 0 then - R else R)"
    unfolding R_def by (rule float64_of_int_Finite [OF assms])
  with R False show ?thesis by simp
qed

lemma float64_of_int_mono:
  assumes "a \<le> b" "\<bar>a\<bar> \<le> 2 ^ 63" "\<bar>b\<bar> \<le> 2 ^ 63"
  shows "fval (float64_of_int a) \<le> fval (float64_of_int b)"
proof -
  define A B where "A = round_mag (of_int \<bar>a\<bar>)" and "B = round_mag (of_int \<bar>b\<bar>)"
  have nn: "0 \<le> A" "0 \<le> B" unfolding A_def B_def by (rule round_mag_nonneg, simp)+
  have F: "float64_of_int a = Finite (if a < 0 then - A else A)"
    "float64_of_int b = Finite (if b < 0 then - B else B)"
    unfolding A_def B_def
    by (rule float64_of_int_Finite [OF assms(2)], rule float64_of_int_Finite [OF assms(3)])
  consider "a < 0" "0 \<le> b" | "0 < a" | "a = 0" | "b < 0" by linarith
  then show ?thesis
  proof cases
    case 1
    with nn show ?thesis by (simp add: F)
  next
    case 2
    with assms have "A \<le> B" unfolding A_def B_def by (intro round_mag_mono) simp_all
    with 2 assms(1) show ?thesis by (simp add: F)
  next
    case 3
    then have "A = 0" by (simp add: A_def round_mag_0)
    with 3 assms(1) nn show ?thesis by (simp add: F float64_of_int_0)
  next
    case 4
    with assms have a: "a < 0" by simp
    from 4 assms have "B \<le> A" unfolding A_def B_def by (intro round_mag_mono) simp_all
    with 4 a show ?thesis by (simp add: F)
  qed
qed

lemma sint64_abs: "\<bar>sint (c :: int64)\<bar> \<le> 2 ^ 63"
  using sint64_range [of c] by simp

lemma float64_of_int64_Finite: "float64_of_int64 c = Finite (fval (float64_of_int64 c))"
  by (simp add: float64_of_int64_def float64_of_int_Finite [OF sint64_abs])

lemma float64_of_int64_exact:
  "\<bar>sint c\<bar> \<le> 2 ^ 53 \<Longrightarrow> float64_of_int64 c = Finite (of_int (sint c))"
  unfolding float64_of_int64_def by (rule float64_of_int_exact)

lemma float64_of_int64_pos: "fgt (float64_of_int64 c) (Finite 0) \<longleftrightarrow> 0 < sint c"
proof -
  have "fgt (Finite r) (Finite 0) \<longleftrightarrow> 0 < r" for r by (simp add: fgt_def flt_def)
  from this [of "fval (float64_of_int64 c)"] show ?thesis
    unfolding float64_of_int64_Finite [symmetric]
    by (simp add: float64_of_int64_def float64_of_int_pos [OF sint64_abs])
qed

lemma fge_float64_of_int64:
  "fge (float64_of_int64 a) (float64_of_int64 b) \<longleftrightarrow>
     fval (float64_of_int64 b) \<le> fval (float64_of_int64 a)"
proof -
  have "fge (Finite r) (Finite s) \<longleftrightarrow> s \<le> r" for r s
    by (auto simp: fge_def flt_def feq_def)
  from this [of "fval (float64_of_int64 a)" "fval (float64_of_int64 b)"] show ?thesis
    unfolding float64_of_int64_Finite [symmetric] .
qed

lemma float64_of_int64_mono:
  assumes "sint a \<le> sint b"
  shows "fge (float64_of_int64 b) (float64_of_int64 a)"
proof -
  have "fval (float64_of_int (sint a)) \<le> fval (float64_of_int (sint b))"
    using assms sint64_abs sint64_abs by (rule float64_of_int_mono)
  then show ?thesis unfolding fge_float64_of_int64 by (simp only: float64_of_int64_def)
qed

lemma int64_of_float64_exact:
  assumes "\<bar>sint c\<bar> \<le> 2 ^ 53"
  shows "int64_of_float64 impl (float64_of_int64 c) = c"
proof -
  define k where "k = sint c"
  have "trunc (of_int k) = k" by (simp add: trunc_def)
  moreover have "in_int64 k" using sint64_range [of c] by (simp add: in_int64_def k_def)
  moreover have "word_of_int k = c" by (simp add: k_def)
  moreover have "float64_of_int64 c = Finite (of_int k)"
    unfolding k_def by (rule float64_of_int64_exact [OF assms])
  ultimately show ?thesis by simp
qed

section \<open>Runs of the goroutine\<close>

lemma run_closed: "g_closed g \<Longrightarrow> run impl sz g es = g"
  by (cases es) simp_all

lemma run_append: "run impl sz g (es @ es') = run impl sz (run impl sz g es) es'"
proof (induction es arbitrary: g)
  case Nil
  show ?case by simp
next
  case (Cons e es)
  show ?case
  proof (cases "g_closed g")
    case True
    then show ?thesis by (simp add: run_closed)
  next
    case False
    then show ?thesis using Cons.IH by simp
  qed
qed

lemma run_snoc:
  "run impl sz g (es @ [e]) =
     (if g_closed (run impl sz g es) then run impl sz g es else iteration impl sz (run impl sz g es) e)"
  by (simp add: run_append)

lemma NewTicker_Nil: "NewTicker impl sz [] = \<lparr>g_started = zero_time, g_sent = [], g_closed = False\<rparr>"
  by (simp add: NewTicker_def)

lemma NewTicker_snoc:
  "NewTicker impl sz (es @ [e]) =
     (if g_closed (NewTicker impl sz es) then NewTicker impl sz es
      else iteration impl sz (NewTicker impl sz es) e)"
  by (simp add: NewTicker_def run_snoc)

lemma NewTicker_append_closed:
  "g_closed (NewTicker impl sz es) \<Longrightarrow> NewTicker impl sz (es @ es') = NewTicker impl sz es"
  by (simp add: NewTicker_def run_append run_closed)

lemma snapshot_sel:
  "p_n (snapshot impl sz started c now) = float64_of_int64 c"
  "p_size (snapshot impl sz started c now) = float64_of_int64 sz"
  "p_estimated (snapshot impl sz started c now) =
     (if IsZero started then zero_time
      else estimate impl started now
        \<lparr>p_n = float64_of_int64 c, p_size = float64_of_int64 sz, p_estimated = zero_time\<rparr>)"
  by (simp_all add: snapshot_def Let_def)

lemma iteration_After:
  "iteration impl sz g (After c now) =
     \<lparr>g_started = (if IsZero (g_started g) \<and> Started (snapshot impl sz (g_started g) c now)
                    then now else g_started g),
      g_sent = g_sent g @ [snapshot impl sz (g_started g) c now],
      g_closed = Complete (snapshot impl sz (g_started g) c now)\<rparr>"
  by (simp add: snapshot_def Let_def Started_def Complete_def)

lemma iteration_Done: "iteration impl sz g Done = g\<lparr>g_closed := True\<rparr>"
  by simp

declare iteration.simps [simp del]
declare iteration_Done [simp]

text \<open>While the goroutine runs, every event so far was a tick and sent one value.\<close>

lemma running_all_ticks:
  "\<not> g_closed (NewTicker impl sz es) \<Longrightarrow>
     length (g_sent (NewTicker impl sz es)) = length es \<and> (\<forall>e\<in>set es. is_tick e)"
proof (induction es rule: rev_induct)
  case Nil
  show ?case by (simp add: NewTicker_Nil)
next
  case (snoc e es)
  from snoc.prems have open_before: "\<not> g_closed (NewTicker impl sz es)"
    by (auto simp: NewTicker_snoc split: if_splits)
  with snoc.IH have ih: "length (g_sent (NewTicker impl sz es)) = length es" "\<forall>e\<in>set es. is_tick e"
    by simp_all
  from snoc.prems open_before have "is_tick e"
    by (cases e) (simp_all add: NewTicker_snoc)
  then obtain c now where e: "e = After c now" by (cases e) simp_all
  show ?case using ih open_before by (simp add: NewTicker_snoc e iteration_After)
qed

text \<open>The values sent are the snapshots of the first ticks, in order.\<close>

lemma sent_are_snapshots:
  "i < length (g_sent (NewTicker impl sz es)) \<Longrightarrow>
     i < length es \<and> is_tick (es ! i) \<and>
     p_n (g_sent (NewTicker impl sz es) ! i) = float64_of_int64 (reading (es ! i)) \<and>
     p_size (g_sent (NewTicker impl sz es) ! i) = float64_of_int64 sz"
proof (induction es rule: rev_induct)
  case Nil
  then show ?case by (simp add: NewTicker_Nil)
next
  case (snoc e es)
  let ?g = "NewTicker impl sz es"
  show ?case
  proof (cases "g_closed ?g")
    case True
    with snoc show ?thesis by (auto simp: NewTicker_snoc nth_append)
  next
    case False
    then have len: "length (g_sent ?g) = length es" using running_all_ticks by blast
    show ?thesis
    proof (cases e)
      case Done
      with snoc False show ?thesis by (auto simp: NewTicker_snoc nth_append)
    next
      case (After c now)
      show ?thesis
      proof (cases "i < length es")
        case True
        with snoc.IH len False After show ?thesis
          by (simp add: NewTicker_snoc iteration_After nth_append)
      next
        case False
        with snoc.prems \<open>\<not> g_closed ?g\<close> len After have "i = length es"
          by (simp add: NewTicker_snoc iteration_After)
        with len \<open>\<not> g_closed ?g\<close> After show ?thesis
          by (simp add: NewTicker_snoc iteration_After nth_append snapshot_sel)
      qed
    qed
  qed
qed

lemma complete_is_last:
  "i < length (g_sent (NewTicker impl sz es)) \<Longrightarrow> Complete (g_sent (NewTicker impl sz es) ! i) \<Longrightarrow>
     Suc i = length (g_sent (NewTicker impl sz es)) \<and> g_closed (NewTicker impl sz es)"
proof (induction es rule: rev_induct)
  case Nil
  then show ?case by (simp add: NewTicker_Nil)
next
  case (snoc e es)
  let ?g = "NewTicker impl sz es"
  show ?case
  proof (cases "g_closed ?g")
    case True
    with snoc show ?thesis by (simp add: NewTicker_snoc)
  next
    case False
    show ?thesis
    proof (cases e)
      case Done
      with snoc False show ?thesis by (simp add: NewTicker_snoc)
    next
      case (After c now)
      show ?thesis
      proof (cases "i < length (g_sent ?g)")
        case True
        with snoc False After show ?thesis
          by (auto simp: NewTicker_snoc iteration_After nth_append)
      next
        case False
        with snoc.prems \<open>\<not> g_closed ?g\<close> After show ?thesis
          by (auto simp: NewTicker_snoc iteration_After nth_append less_Suc_eq)
      qed
    qed
  qed
qed

lemma first_activity_iff:
  "first_activity ps k \<longleftrightarrow> k < length ps \<and> Started (ps ! k) \<and> (\<forall>j<k. \<not> Started (ps ! j))"
proof -
  have "(\<forall>p\<in>set (take k ps). \<not> Started p) \<longleftrightarrow> (\<forall>j<k. \<not> Started (ps ! j))" if "k < length ps"
  proof -
    from that have "set (take k ps) = (!) ps ` {0..<k}" by (simp add: nth_image)
    then show ?thesis by auto
  qed
  then show ?thesis by (auto simp: first_activity_def)
qed



lemma first_activity_snoc_old:
  "k < length ps \<Longrightarrow> first_activity (ps @ [p]) k \<longleftrightarrow> first_activity ps k"
  by (auto simp: first_activity_iff nth_append)



lemma sent_length_le: "length (g_sent (NewTicker impl sz es)) \<le> length es"
proof (rule ccontr)
  assume "\<not> length (g_sent (NewTicker impl sz es)) \<le> length es"
  then have "length es < length (g_sent (NewTicker impl sz es))" by simp
  from sent_are_snapshots [OF this] show False by simp
qed

text \<open>The \<open>i\<close>-th value sent was built by iteration \<open>i\<close>, from the state the first \<open>i\<close> events left.\<close>

lemma sent_nth:
  "i < length (g_sent (NewTicker impl sz es)) \<Longrightarrow>
     g_sent (NewTicker impl sz es) ! i =
       snapshot impl sz (g_started (NewTicker impl sz (take i es))) (reading (es ! i)) (clock (es ! i)) \<and>
     g_sent (NewTicker impl sz (take i es)) = take i (g_sent (NewTicker impl sz es))"
proof (induction es rule: rev_induct)
  case Nil
  then show ?case by (simp add: NewTicker_Nil)
next
  case (snoc e es)
  let ?g = "NewTicker impl sz es"
  have le: "length (g_sent ?g) \<le> length es" by (rule sent_length_le)
  show ?case
  proof (cases "g_closed ?g \<or> e = Done")
    case True
    then have same: "g_sent (NewTicker impl sz (es @ [e])) = g_sent ?g"
      by (auto simp: NewTicker_snoc)
    with snoc.prems have i: "i < length (g_sent ?g)" by simp
    with le have "i < length es" by simp
    then show ?thesis using snoc.IH [OF i] same by (simp add: nth_append)
  next
    case False
    then obtain c now where e: "e = After c now" by (cases e) auto
    from False have len: "length (g_sent ?g) = length es" using running_all_ticks by blast
    have new: "g_sent (NewTicker impl sz (es @ [e])) = g_sent ?g @ [snapshot impl sz (g_started ?g) c now]"
      using False e by (simp add: NewTicker_snoc iteration_After)
    show ?thesis
    proof (cases "i < length es")
      case True
      with len have i: "i < length (g_sent ?g)" by simp
      from True have t: "take i (es @ [e]) = take i es" "(es @ [e]) ! i = es ! i"
        by (simp_all add: nth_append)
      from i have s: "(g_sent ?g @ [snapshot impl sz (g_started ?g) c now]) ! i = g_sent ?g ! i"
        "take i (g_sent ?g @ [snapshot impl sz (g_started ?g) c now]) = take i (g_sent ?g)"
        by (simp_all add: nth_append)
      show ?thesis unfolding new t s using snoc.IH [OF i] .
    next
      case False
      with snoc.prems new len have i: "i = length es" by simp
      have t: "take i (es @ [e]) = es" "(es @ [e]) ! i = e" by (simp_all add: i)
      have s: "(g_sent ?g @ [snapshot impl sz (g_started ?g) c now]) ! i = snapshot impl sz (g_started ?g) c now"
        "take i (g_sent ?g @ [snapshot impl sz (g_started ?g) c now]) = g_sent ?g"
        using len by (simp_all add: i nth_append)
      show ?thesis unfolding new t s by (simp add: e)
    qed
  qed
qed

lemma started_needs_activity:
  "\<not> IsZero (g_started (NewTicker impl sz es)) \<Longrightarrow>
     \<exists>j<length (g_sent (NewTicker impl sz es)). Started (g_sent (NewTicker impl sz es) ! j)"
proof (induction es rule: rev_induct)
  case Nil
  then show ?case by (simp add: NewTicker_Nil IsZero_def zero_time_def)
next
  case (snoc e es)
  let ?g = "NewTicker impl sz es"
  show ?case
  proof (cases "g_closed ?g \<or> e = Done")
    case True
    then have same: "NewTicker impl sz (es @ [e]) = ?g \<or> NewTicker impl sz (es @ [e]) = ?g\<lparr>g_closed := True\<rparr>"
      by (auto simp: NewTicker_snoc)
    then have eqs: "g_sent (NewTicker impl sz (es @ [e])) = g_sent ?g"
      "g_started (NewTicker impl sz (es @ [e])) = g_started ?g"
      by auto
    from snoc.prems have "\<not> IsZero (g_started ?g)" unfolding eqs .
    from snoc.IH [OF this] show ?thesis unfolding eqs .
  next
    case False
    then obtain c now where e: "e = After c now" by (cases e) auto
    let ?p = "snapshot impl sz (g_started ?g) c now"
    have new: "NewTicker impl sz (es @ [e]) =
        \<lparr>g_started = (if IsZero (g_started ?g) \<and> Started ?p then now else g_started ?g),
         g_sent = g_sent ?g @ [?p], g_closed = Complete ?p\<rparr>"
      using False e by (simp add: NewTicker_snoc iteration_After)
    show ?thesis
    proof (cases "IsZero (g_started ?g)")
      case True
      with snoc.prems have "Started ?p" unfolding new by (simp split: if_splits)
      then have "length (g_sent ?g) < length (g_sent ?g @ [?p]) \<and> Started ((g_sent ?g @ [?p]) ! length (g_sent ?g))"
        by simp
      then show ?thesis unfolding new by (simp only: goroutine.simps) blast
    next
      case False
      with snoc.IH obtain j where "j < length (g_sent ?g)" "Started (g_sent ?g ! j)" by blast
      then have "j < length (g_sent ?g @ [?p]) \<and> Started ((g_sent ?g @ [?p]) ! j)"
        by (simp add: nth_append)
      then show ?thesis unfolding new by (simp only: goroutine.simps) blast
    qed
  qed
qed

section \<open>Evaluating the float operations\<close>

lemma floor_rat_numeral: "\<lfloor>numeral a / numeral b :: rat\<rfloor> = numeral a div numeral b"
  by (metis floor_divide_of_int_eq of_int_numeral)

lemma float64_round_exact:
  assumes "0 < m" "m \<le> 2 ^ 53" "- 1074 \<le> j" "j \<le> 970"
  shows "float64_round neg (of_int m * 2 powi j) =
    Finite (if neg then - (of_int m * 2 powi j) else of_int m * 2 powi j)"
proof -
  define x :: rat where "x = of_int m * 2 powi j"
  have r: "round_mag x = x" unfolding x_def using assms(1-3) by (rule round_mag_exact)
  have x: "0 < x" using assms(1) by (simp add: x_def)
  have "x \<le> of_int (2 ^ 53) * 2 powi j" unfolding x_def using assms(2) by (simp only: scaled_mono)
  also have "\<dots> = 2 powi (j + 53)" using pow2_split53 [of "j + 52"] by (simp add: add.commute)
  also have "\<dots> \<le> 2 powi 1023" using assms(4) by (simp only: pow2_le_iff)
  also have "\<dots> < 2 powi 1024" by (simp only: pow2_less_iff)
  finally have "\<not> 2 ^ 1024 \<le> x" by simp
  with x show ?thesis unfolding x_def [symmetric] float64_round_def Let_def r by simp
qed

lemma fdiv_Finite_exact:
  assumes "b \<noteq> 0" "\<bar>a / b\<bar> = of_int m * 2 powi j" "0 < m" "m \<le> 2 ^ 53" "- 1074 \<le> j" "j \<le> 970"
  shows "fdiv (Finite a) (Finite b) = Finite (a / b)"
proof -
  have q: "mag (Finite a) / mag (Finite b) = of_int m * 2 powi j"
    using assms(2) by simp
  have ab: "a / b \<noteq> 0" using assms(2,3) by auto
  then have a: "a \<noteq> 0" by auto
  have s: "((a < 0) = (\<not> b < 0)) = (a / b < 0)"
    using a assms(1) by (auto simp: divide_less_0_iff not_less le_less)
  have "fdiv (Finite a) (Finite b) = float64_round (a / b < 0) (of_int m * 2 powi j)"
    using assms(1) unfolding fdiv_def q [symmetric] by (simp add: s)
  also have "\<dots> = Finite (if a / b < 0 then - (of_int m * 2 powi j) else of_int m * 2 powi j)"
    using assms(3-6) by (rule float64_round_exact)
  also have "\<dots> = Finite (a / b)" using assms(2) ab by (auto simp: abs_if split: if_splits)
  finally show ?thesis .
qed

lemma float64_of_int64_small:
  "float64_of_int64 0 = Finite 0" "float64_of_int64 25 = Finite 25"
  "float64_of_int64 50 = Finite 50" "float64_of_int64 100 = Finite 100"
  "float64_of_int64 1000 = Finite 1000" "float64_of_int64 2000 = Finite 2000"
  by (simp_all add: float64_of_int64_exact)

lemma fdiv_small:
  "fdiv (Finite 50) (Finite 100) = Finite (1 / 2)"
  "fdiv (Finite 1000) (Finite (1 / 2)) = Finite 2000"
  "fdiv (Finite 100) (Finite 100) = Finite 1"
  "fdiv (Finite 2000) (Finite 1) = Finite 2000"
  using fdiv_Finite_exact [of 100 50 1 "- 1"] fdiv_Finite_exact [of "1 / 2" 1000 2000 0]
    fdiv_Finite_exact [of 100 100 1 0] fdiv_Finite_exact [of 1 2000 2000 0]
  by simp_all

lemma estimate_small:
  "estimate impl 2000 3000 \<lparr>p_n = Finite 50, p_size = Finite 100, p_estimated = zero_time\<rparr> = 4000"
  "estimate impl 2000 4000 \<lparr>p_n = Finite 100, p_size = Finite 100, p_estimated = zero_time\<rparr> = 4000"
  by (simp_all add: estimate_def Time_Sub_def Time_Add_def float64_of_int64_small fdiv_small
      trunc_def in_int64_def)

lemma example_run_result:
  "NewTicker impl 100 example_run =
     \<lparr>g_started = 2000,
      g_sent = [\<lparr>p_n = Finite 0, p_size = Finite 100, p_estimated = 0\<rparr>,
                \<lparr>p_n = Finite 25, p_size = Finite 100, p_estimated = 0\<rparr>,
                \<lparr>p_n = Finite 50, p_size = Finite 100, p_estimated = 4000\<rparr>,
                \<lparr>p_n = Finite 100, p_size = Finite 100, p_estimated = 4000\<rparr>],
      g_closed = True\<rparr>"
  by (simp add: NewTicker_def example_run_def iteration_After Let_def snapshot_def float64_of_int64_small
      IsZero_def zero_time_def Started_def Complete_def fgt_def flt_def fge_def feq_def
      estimate_small [unfolded zero_time_def])

lemma nth4:
  "[a, b, c, d] ! 0 = a" "[a, b, c, d] ! 1 = b" "[a, b, c, d] ! 2 = c" "[a, b, c, d] ! 3 = d"
  "[a, b, c, d] ! Suc 0 = b"
  by (simp_all add: numeral_2_eq_2 numeral_3_eq_3)

section \<open>The claims about a run\<close>

lemma fge_exact:
  assumes "\<bar>sint a\<bar> \<le> 2 ^ 53" "\<bar>sint b\<bar> \<le> 2 ^ 53"
  shows "fge (float64_of_int64 a) (float64_of_int64 b) \<longleftrightarrow> sint b \<le> sint a"
proof -
  have "fge (Finite (of_int x)) (Finite (of_int y)) \<longleftrightarrow> y \<le> x" for x y :: int
    by (auto simp: fge_def flt_def feq_def)
  then show ?thesis
    unfolding float64_of_int64_exact [OF assms(1)] float64_of_int64_exact [OF assms(2)] .
qed

text \<open>
  C3, as amended. A snapshot sent is complete exactly when the count read at its tick, as a
  float64, is at least the size as a float64: it is complete whenever the reading is at
  least the size, and only then when both have magnitudes of at most \<open>2 ^ 53\<close>. A complete
  snapshot is the last one sent: the goroutine has returned after it (the channel is
  closed), and whatever events follow change nothing.
\<close>

theorem complete_closes_channel:
  "\<forall>i<length (g_sent (NewTicker impl sz es)).
     (Complete (g_sent (NewTicker impl sz es) ! i) \<longleftrightarrow>
        fge (float64_of_int64 (reading (es ! i))) (float64_of_int64 sz)) \<and>
     (sint sz \<le> sint (reading (es ! i)) \<longrightarrow> Complete (g_sent (NewTicker impl sz es) ! i)) \<and>
     (\<bar>sint sz\<bar> \<le> 2 ^ 53 \<and> \<bar>sint (reading (es ! i))\<bar> \<le> 2 ^ 53 \<and>
      Complete (g_sent (NewTicker impl sz es) ! i) \<longrightarrow> sint sz \<le> sint (reading (es ! i))) \<and>
     (Complete (g_sent (NewTicker impl sz es) ! i) \<longrightarrow>
        Suc i = length (g_sent (NewTicker impl sz es)) \<and>
        g_closed (NewTicker impl sz es) \<and>
        (\<forall>es'. NewTicker impl sz (es @ es') = NewTicker impl sz es))"
proof (intro allI impI conjI)
  fix i assume i: "i < length (g_sent (NewTicker impl sz es))"
  show eq: "Complete (g_sent (NewTicker impl sz es) ! i) \<longleftrightarrow>
        fge (float64_of_int64 (reading (es ! i))) (float64_of_int64 sz)"
    using sent_are_snapshots [OF i] by (simp add: Complete_def)
  show "Complete (g_sent (NewTicker impl sz es) ! i)" if "sint sz \<le> sint (reading (es ! i))"
    unfolding eq using that by (rule float64_of_int64_mono)
  show "sint sz \<le> sint (reading (es ! i))"
    if "\<bar>sint sz\<bar> \<le> 2 ^ 53 \<and> \<bar>sint (reading (es ! i))\<bar> \<le> 2 ^ 53 \<and>
      Complete (g_sent (NewTicker impl sz es) ! i)"
    using that fge_exact [of "reading (es ! i)" sz] by (simp add: eq)
  assume c: "Complete (g_sent (NewTicker impl sz es) ! i)"
  show "Suc i = length (g_sent (NewTicker impl sz es))"
    using complete_is_last [OF i c] by simp
  show "g_closed (NewTicker impl sz es)"
    using complete_is_last [OF i c] by simp
  then show "NewTicker impl sz (es @ es') = NewTicker impl sz es" for es'
    by (rule NewTicker_append_closed)
qed

theorem complete_closes_channel_witness:
  "3 < length (g_sent (NewTicker impl_amd64 100 example_run)) \<and>
   sint (100 :: int64) \<le> sint (reading (example_run ! 3)) \<and>
   \<bar>sint (100 :: int64)\<bar> \<le> 2 ^ 53 \<and> \<bar>sint (reading (example_run ! 3))\<bar> \<le> 2 ^ 53 \<and>
   Complete (g_sent (NewTicker impl_amd64 100 example_run) ! 3) \<and>
   fge (float64_of_int64 (reading (example_run ! 3))) (float64_of_int64 100) \<and>
   Suc 3 = length (g_sent (NewTicker impl_amd64 100 example_run)) \<and>
   g_closed (NewTicker impl_amd64 100 example_run) \<and>
   NewTicker impl_amd64 100 (example_run @ [After 130 6000]) = NewTicker impl_amd64 100 example_run"
proof -
  have i: "3 < length (g_sent (NewTicker impl_amd64 100 example_run))"
    by (simp add: example_run_result)
  have r: "reading (example_run ! 3) = 100" by (simp add: example_run_def numeral_3_eq_3)
  have h: "sint (100 :: int64) \<le> sint (reading (example_run ! 3))"
    "\<bar>sint (100 :: int64)\<bar> \<le> 2 ^ 53" "\<bar>sint (reading (example_run ! 3))\<bar> \<le> 2 ^ 53"
    by (simp_all add: r)
  from complete_closes_channel [of impl_amd64 100 example_run, rule_format, OF i] h i
  show ?thesis by blast
qed

text \<open>
  C5. A snapshot with an estimate other than the zero Time comes after an earlier snapshot
  of the run with a positive count; the first snapshot with a positive count carries no
  estimate.
\<close>

theorem estimate_needs_earlier_activity:
  "\<forall>i<length (g_sent (NewTicker impl sz es)).
     (p_estimated (g_sent (NewTicker impl sz es) ! i) \<noteq> zero_time \<longrightarrow>
        (\<exists>j<i. Started (g_sent (NewTicker impl sz es) ! j))) \<and>
     (first_activity (g_sent (NewTicker impl sz es)) i \<longrightarrow>
        p_estimated (g_sent (NewTicker impl sz es) ! i) = zero_time)"
proof (intro allI impI)
  fix i assume i: "i < length (g_sent (NewTicker impl sz es))"
  let ?ps = "g_sent (NewTicker impl sz es)"
  let ?h = "NewTicker impl sz (take i es)"
  from sent_nth [OF i] have
    p: "?ps ! i = snapshot impl sz (g_started ?h) (reading (es ! i)) (clock (es ! i))"
    and pre: "g_sent ?h = take i ?ps" by simp_all
  have a: "\<exists>j<i. Started (?ps ! j)" if "p_estimated (?ps ! i) \<noteq> zero_time"
  proof -
    from that p have "\<not> IsZero (g_started ?h)" by (auto simp: snapshot_sel split: if_splits)
    from started_needs_activity [OF this] obtain j where "j < length (g_sent ?h)" "Started (g_sent ?h ! j)"
      by blast
    with pre i show ?thesis by auto
  qed
  have b: "p_estimated (?ps ! i) = zero_time" if "first_activity ?ps i"
  proof (rule ccontr)
    assume "p_estimated (?ps ! i) \<noteq> zero_time"
    with a that show False by (auto simp: first_activity_iff)
  qed
  from a b show "(p_estimated (?ps ! i) \<noteq> zero_time \<longrightarrow> (\<exists>j<i. Started (?ps ! j))) \<and>
     (first_activity ?ps i \<longrightarrow> p_estimated (?ps ! i) = zero_time)" by blast
qed

theorem estimate_needs_earlier_activity_witness:
  "2 < length (g_sent (NewTicker impl_amd64 100 example_run)) \<and>
   p_estimated (g_sent (NewTicker impl_amd64 100 example_run) ! 2) \<noteq> zero_time \<and>
   (\<exists>j<2. Started (g_sent (NewTicker impl_amd64 100 example_run) ! j)) \<and>
   first_activity (g_sent (NewTicker impl_amd64 100 example_run)) 1 \<and>
   p_estimated (g_sent (NewTicker impl_amd64 100 example_run) ! 1) = zero_time"
proof -
  let ?ps = "g_sent (NewTicker impl_amd64 100 example_run)"
  have 1: "1 < length ?ps" and 2: "2 < length ?ps" by (simp_all add: example_run_result)
  have e: "p_estimated (?ps ! 2) \<noteq> zero_time"
    by (simp add: example_run_result nth4 zero_time_def)
  have f: "first_activity ?ps 1"
    by (simp add: example_run_result first_activity_def nth4 Started_def fgt_def flt_def)
  from estimate_needs_earlier_activity [of impl_amd64 100 example_run, rule_format, OF 2]
    estimate_needs_earlier_activity [of impl_amd64 100 example_run, rule_format, OF 1]
    e f 2 show ?thesis by blast
qed

text \<open>
  C7. When the context is done while the goroutine still runs, that iteration sends
  nothing: the values sent are those sent before, the channel is closed, and later events
  change nothing.
\<close>

theorem cancel_closes_channel:
  "\<not> g_closed (NewTicker impl sz es) \<Longrightarrow>
     NewTicker impl sz (es @ Done # es') = (NewTicker impl sz es)\<lparr>g_closed := True\<rparr>"
proof -
  assume "\<not> g_closed (NewTicker impl sz es)"
  then have "NewTicker impl sz (es @ [Done]) = (NewTicker impl sz es)\<lparr>g_closed := True\<rparr>"
    by (simp add: NewTicker_snoc)
  moreover have "NewTicker impl sz ((es @ [Done]) @ es') = NewTicker impl sz (es @ [Done])"
    by (rule NewTicker_append_closed) (simp add: calculation)
  ultimately show ?thesis by simp
qed

theorem cancel_closes_channel_witness:
  "\<not> g_closed (NewTicker impl_amd64 100 [After 0 1000, After 25 2000]) \<and>
   NewTicker impl_amd64 100 ([After 0 1000, After 25 2000] @ Done # [After 100 3000]) =
     \<lparr>g_started = 2000,
      g_sent = [\<lparr>p_n = Finite 0, p_size = Finite 100, p_estimated = 0\<rparr>,
                \<lparr>p_n = Finite 25, p_size = Finite 100, p_estimated = 0\<rparr>],
      g_closed = True\<rparr>"
proof -
  have r: "NewTicker impl_amd64 100 [After 0 1000, After 25 2000] =
     \<lparr>g_started = 2000,
      g_sent = [\<lparr>p_n = Finite 0, p_size = Finite 100, p_estimated = 0\<rparr>,
                \<lparr>p_n = Finite 25, p_size = Finite 100, p_estimated = 0\<rparr>],
      g_closed = False\<rparr>"
    by (simp add: NewTicker_def iteration_After snapshot_def Let_def float64_of_int64_small
      IsZero_def zero_time_def Started_def Complete_def fgt_def flt_def fge_def feq_def)
  then have o: "\<not> g_closed (NewTicker impl_amd64 100 [After 0 1000, After 25 2000])" by simp
  from cancel_closes_channel [OF o, of "[After 100 3000]"] o show ?thesis by (simp add: r)
qed

section \<open>Zero count and zero size\<close>

lemma zero_props: "feq a (Finite 0) \<Longrightarrow> feq b (Finite 0) \<Longrightarrow> fge a b \<and> \<not> fgt a (Finite 0)"
  by (cases a; cases b) (auto simp: feq_def fge_def fgt_def flt_def)

lemma float64_round_0: "float64_round neg 0 = fzero neg"
  by (simp add: float64_round_def)

lemma float64_of_int64_0: "float64_of_int64 0 = Finite 0"
  by (simp add: float64_of_int64_def float64_of_int_def float64_round_0 fzero_def)

text \<open>
  C10. A Progress whose count and size both compare equal to 0 is complete, is not started,
  and its percentage is 0 (the test \<^verbatim>\<open>p.n == 0\<close> comes first). A run with size 0 whose first
  iteration is a tick that reads 0 sends that one snapshot, without an estimate, and returns:
  the channel is closed and \<^verbatim>\<open>started\<close> is still the zero Time.
\<close>

theorem zero_count_zero_size:
  "(feq (p_n p) (Finite 0) \<and> feq (p_size p) (Finite 0) \<longrightarrow>
      Complete p \<and> \<not> Started p \<and> Percent p = Finite 0) \<and>
   NewTicker impl 0 (After 0 now # es) =
     \<lparr>g_started = zero_time,
      g_sent = [\<lparr>p_n = Finite 0, p_size = Finite 0, p_estimated = zero_time\<rparr>],
      g_closed = True\<rparr>"
proof -
  have a: "feq (p_n p) (Finite 0) \<and> feq (p_size p) (Finite 0) \<longrightarrow>
      Complete p \<and> \<not> Started p \<and> Percent p = Finite 0"
    using zero_props [of "p_n p" "p_size p"] by (simp add: Complete_def Started_def Percent_def)
  let ?g = "\<lparr>g_started = zero_time, g_sent = [], g_closed = False\<rparr>"
  have it: "iteration impl 0 ?g (After 0 now) =
     \<lparr>g_started = zero_time,
      g_sent = [\<lparr>p_n = Finite 0, p_size = Finite 0, p_estimated = zero_time\<rparr>],
      g_closed = True\<rparr>"
    by (simp add: iteration.simps float64_of_int64_0 IsZero_def zero_time_def Started_def
        Complete_def fgt_def flt_def fge_def feq_def Let_def)
  have "NewTicker impl 0 (After 0 now # es) = run impl 0 (iteration impl 0 ?g (After 0 now)) es"
    by (simp add: NewTicker_def)
  also have "\<dots> = iteration impl 0 ?g (After 0 now)"
    by (simp only: it) (simp add: run_closed)
  finally show ?thesis using a it by simp
qed

theorem zero_count_zero_size_witness:
  "feq (p_n \<lparr>p_n = NegZero, p_size = Finite 0, p_estimated = 7\<rparr>) (Finite 0) \<and>
   feq (p_size \<lparr>p_n = NegZero, p_size = Finite 0, p_estimated = 7\<rparr>) (Finite 0) \<and>
   Complete \<lparr>p_n = NegZero, p_size = Finite 0, p_estimated = 7\<rparr> \<and>
   \<not> Started \<lparr>p_n = NegZero, p_size = Finite 0, p_estimated = 7\<rparr> \<and>
   Percent \<lparr>p_n = NegZero, p_size = Finite 0, p_estimated = 7\<rparr> = Finite 0 \<and>
   NewTicker impl_amd64 0 [After 0 1000, After 0 2000, Done] =
     \<lparr>g_started = zero_time,
      g_sent = [\<lparr>p_n = Finite 0, p_size = Finite 0, p_estimated = zero_time\<rparr>],
      g_closed = True\<rparr>"
  using zero_count_zero_size [of "\<lparr>p_n = NegZero, p_size = Finite 0, p_estimated = 7\<rparr>"
      impl_amd64 1000 "[After 0 2000, Done]"]
  by (simp add: feq_def)

section \<open>A run with size 0\<close>

lemma fgt_imp_fge: "fgt a b \<Longrightarrow> fge a b"
  by (simp add: fgt_def fge_def)

lemma zero_size_invariant:
  "(\<forall>p\<in>set (g_sent (NewTicker impl 0 es)). p_estimated p = zero_time) \<and>
   (\<not> g_closed (NewTicker impl 0 es) \<longrightarrow> IsZero (g_started (NewTicker impl 0 es)))"
proof (induction es rule: rev_induct)
  case Nil
  show ?case by (simp add: NewTicker_Nil IsZero_def zero_time_def)
next
  case (snoc e es)
  let ?g = "NewTicker impl 0 es"
  show ?case
  proof (cases "g_closed ?g")
    case True
    with snoc show ?thesis by (simp add: NewTicker_snoc)
  next
    case False
    with snoc have z: "IsZero (g_started ?g)" by simp
    show ?thesis
    proof (cases e)
      case Done
      with snoc False show ?thesis by (simp add: NewTicker_snoc)
    next
      case (After c now)
      let ?p = "snapshot impl 0 (g_started ?g) c now"
      have new: "NewTicker impl 0 (es @ [After c now]) =
        \<lparr>g_started = (if IsZero (g_started ?g) \<and> Started ?p then now else g_started ?g),
         g_sent = g_sent ?g @ [?p], g_closed = Complete ?p\<rparr>"
        using False by (simp add: NewTicker_snoc iteration_After)
      have e0: "p_estimated ?p = zero_time" using z by (simp add: snapshot_sel)
      have "Started ?p \<Longrightarrow> Complete ?p"
        unfolding Started_def Complete_def snapshot_sel float64_of_int64_0 by (rule fgt_imp_fge)
      then have "\<not> Complete ?p \<Longrightarrow> \<not> Started ?p" by blast
      with snoc.IH e0 z show ?thesis unfolding After new by auto
    qed
  qed
qed

lemma Percent_zero_size:
  assumes "p_size p = Finite 0" "p_n p = Finite r"
  shows "Percent p = (if feq (p_n p) (Finite 0) then Finite 0 else finf (fneg (p_n p)))"
proof (cases "r = 0")
  case True
  with assms show ?thesis by (simp add: Percent_def feq_def)
next
  case False
  have 1: "fdiv (Finite 0) (Finite r) = fzero (r < 0)"
    using False by (simp add: fdiv_def float64_round_def)
  have 2: "fdiv (Finite 100) (fzero neg) = finf neg" for neg
    by (simp add: fdiv_def fzero_def)
  from False assms show ?thesis by (simp add: Percent_def feq_def 1 2)
qed

text \<open>
  C6, as amended. In a run with size 0 the ratio \<^verbatim>\<open>count / size\<close> is never computed: while
  the goroutine runs, \<^verbatim>\<open>started\<close> is the zero Time (a tick with a positive count is also
  complete, so the goroutine returns right after it), and every snapshot sent has the zero
  Time as its estimate. The division by the zero size happens in \<^verbatim>\<open>Percent\<close> only, which is
  0 for a zero count and otherwise the infinity of the count's sign.
\<close>

theorem zero_size_never_estimates:
  "(\<forall>p\<in>set (g_sent (NewTicker impl 0 es)).
      p_estimated p = zero_time \<and>
      Percent p = (if feq (p_n p) (Finite 0) then Finite 0 else finf (fneg (p_n p)))) \<and>
   (\<not> g_closed (NewTicker impl 0 es) \<longrightarrow> IsZero (g_started (NewTicker impl 0 es)))"
proof (intro conjI ballI)
  fix p assume p: "p \<in> set (g_sent (NewTicker impl 0 es))"
  with zero_size_invariant [of impl es] show "p_estimated p = zero_time" by blast
  from p obtain i where i: "i < length (g_sent (NewTicker impl 0 es))"
    "p = g_sent (NewTicker impl 0 es) ! i" by (auto simp: in_set_conv_nth)
  from sent_are_snapshots [OF i(1)] i(2) have
    "p_n p = float64_of_int64 (reading (es ! i))" "p_size p = Finite 0"
    by (simp_all add: float64_of_int64_0)
  with float64_of_int64_Finite [of "reading (es ! i)"]
  show "Percent p = (if feq (p_n p) (Finite 0) then Finite 0 else finf (fneg (p_n p)))"
    by (intro Percent_zero_size) simp_all
next
  show "\<not> g_closed (NewTicker impl 0 es) \<longrightarrow> IsZero (g_started (NewTicker impl 0 es))"
    using zero_size_invariant [of impl es] by blast
qed

lemma float64_of_int64_5: "float64_of_int64 5 = Finite 5"
  by (simp add: float64_of_int64_exact)

lemma zero_size_run:
  "NewTicker impl 0 [After 5 1000, After 7 2000] =
     \<lparr>g_started = 1000,
      g_sent = [\<lparr>p_n = Finite 5, p_size = Finite 0, p_estimated = zero_time\<rparr>],
      g_closed = True\<rparr>"
  by (simp add: NewTicker_def iteration_After snapshot_def Let_def float64_of_int64_small
      float64_of_int64_5 IsZero_def zero_time_def Started_def Complete_def fgt_def flt_def
      fge_def feq_def)

theorem zero_size_never_estimates_witness:
  "\<lparr>p_n = Finite 5, p_size = Finite 0, p_estimated = zero_time\<rparr>
     \<in> set (g_sent (NewTicker impl_amd64 0 [After 5 1000, After 7 2000])) \<and>
   p_estimated \<lparr>p_n = Finite 5, p_size = Finite 0, p_estimated = zero_time\<rparr> = zero_time \<and>
   Percent \<lparr>p_n = Finite 5, p_size = Finite 0, p_estimated = zero_time\<rparr> = PosInf \<and>
   \<not> g_closed (NewTicker impl_amd64 0 [After (- 5) 1000]) \<and>
   IsZero (g_started (NewTicker impl_amd64 0 [After (- 5) 1000]))"
proof -
  have m: "\<lparr>p_n = Finite 5, p_size = Finite 0, p_estimated = zero_time\<rparr>
     \<in> set (g_sent (NewTicker impl_amd64 0 [After 5 1000, After 7 2000]))"
    by (simp add: zero_size_run)
  have "float64_of_int64 (- 5) = Finite (- 5)" by (simp add: float64_of_int64_exact)
  then have o: "\<not> g_closed (NewTicker impl_amd64 0 [After (- 5) 1000])"
    by (simp add: NewTicker_def iteration_After snapshot_def Let_def float64_of_int64_small
      IsZero_def zero_time_def Started_def Complete_def fgt_def flt_def fge_def feq_def)
  from zero_size_never_estimates [of impl_amd64 "[After 5 1000, After 7 2000]"] m
    zero_size_never_estimates [of impl_amd64 "[After (- 5) 1000]"] o
  show ?thesis by (auto simp: feq_def finf_def)
qed

text \<open>
  C6 as stated fails: with size 0 and a first reading of 5, the one snapshot sent has the
  zero Time as its estimate, no infinity and no NaN, and the goroutine has returned before
  any tick could reach the estimate.
\<close>

theorem zero_size_counterexample:
  "NewTicker impl_amd64 0 [After 5 1000, After 7 2000] =
     \<lparr>g_started = 1000,
      g_sent = [\<lparr>p_n = Finite 5, p_size = Finite 0, p_estimated = zero_time\<rparr>],
      g_closed = True\<rparr>"
  by (rule zero_size_run)

section \<open>Counts and sizes of the snapshots\<close>

text \<open>
  C8, as amended. Every snapshot of a run carries the same size, the float64 of the size
  given to \<^verbatim>\<open>NewTicker\<close>, and \<^verbatim>\<open>Size()\<close> returns that size exactly whenever its magnitude
  is at most \<open>2 ^ 53\<close>.
\<close>

theorem size_is_fixed:
  "\<forall>p\<in>set (g_sent (NewTicker impl sz es)).
     p_size p = float64_of_int64 sz \<and> (\<bar>sint sz\<bar> \<le> 2 ^ 53 \<longrightarrow> Size impl p = sz)"
proof
  fix p assume "p \<in> set (g_sent (NewTicker impl sz es))"
  then obtain i where i: "i < length (g_sent (NewTicker impl sz es))"
    "p = g_sent (NewTicker impl sz es) ! i" by (auto simp: in_set_conv_nth)
  from sent_are_snapshots [OF i(1)] i(2) have s: "p_size p = float64_of_int64 sz" by simp
  then show "p_size p = float64_of_int64 sz \<and> (\<bar>sint sz\<bar> \<le> 2 ^ 53 \<longrightarrow> Size impl p = sz)"
    by (simp add: Size_def int64_of_float64_exact)
qed

theorem size_is_fixed_witness:
  "\<lparr>p_n = Finite 25, p_size = Finite 100, p_estimated = 0\<rparr>
     \<in> set (g_sent (NewTicker impl_amd64 100 example_run)) \<and>
   p_size \<lparr>p_n = Finite 25, p_size = Finite 100, p_estimated = 0\<rparr> = float64_of_int64 100 \<and>
   \<bar>sint (100 :: int64)\<bar> \<le> 2 ^ 53 \<and>
   Size impl_amd64 \<lparr>p_n = Finite 25, p_size = Finite 100, p_estimated = 0\<rparr> = 100"
proof -
  have m: "\<lparr>p_n = Finite 25, p_size = Finite 100, p_estimated = 0\<rparr>
     \<in> set (g_sent (NewTicker impl_amd64 100 example_run))"
    by (simp add: example_run_result)
  have b: "\<bar>sint (100 :: int64)\<bar> \<le> 2 ^ 53" by simp
  from size_is_fixed [of impl_amd64 100 example_run] m b show ?thesis by blast
qed

lemma round_mag_2p53_plus_1: "round_mag 9007199254740993 = 9007199254740992"
  using round_mag_eq [of 53 9007199254740993]
  by (simp add: round_even_def Let_def floor_rat_numeral)

lemma float64_of_int64_2p53_plus_1: "float64_of_int64 9007199254740993 = Finite 9007199254740992"
  by (simp add: float64_of_int64_def float64_of_int_Finite round_mag_2p53_plus_1)

text \<open>
  C8 as stated fails: the size \<open>2 ^ 53 + 1\<close> is no float64; it is stored as \<open>2 ^ 53\<close>, and
  \<^verbatim>\<open>Size()\<close> returns \<open>2 ^ 53\<close>.
\<close>

theorem size_is_fixed_counterexample:
  "g_sent (NewTicker impl_amd64 9007199254740993 [After 0 1000]) =
     [\<lparr>p_n = Finite 0, p_size = Finite 9007199254740992, p_estimated = zero_time\<rparr>] \<and>
   Size impl_amd64 (g_sent (NewTicker impl_amd64 9007199254740993 [After 0 1000]) ! 0) =
     9007199254740992 \<and>
   (9007199254740992 :: int64) \<noteq> 9007199254740993"
  by (simp add: NewTicker_def iteration_After snapshot_def Let_def float64_of_int64_small
      float64_of_int64_2p53_plus_1 IsZero_def zero_time_def Size_def trunc_def in_int64_def)

text \<open>
  C4, as amended. When the readings of the counter do not decrease over the ticks of a
  run, every snapshot's count is the float64 of the reading at its tick, these counts do
  not decrease, and \<^verbatim>\<open>N()\<close> returns the reading exactly whenever its magnitude is at most
  \<open>2 ^ 53\<close>.
\<close>

theorem counts_follow_the_counter:
  assumes "\<forall>j<length (g_sent (NewTicker impl sz es)). \<forall>i\<le>j.
             sint (reading (es ! i)) \<le> sint (reading (es ! j))"
  shows "\<forall>j<length (g_sent (NewTicker impl sz es)).
           p_n (g_sent (NewTicker impl sz es) ! j) = float64_of_int64 (reading (es ! j)) \<and>
           (\<forall>i\<le>j. fge (p_n (g_sent (NewTicker impl sz es) ! j)) (p_n (g_sent (NewTicker impl sz es) ! i))) \<and>
           (\<bar>sint (reading (es ! j))\<bar> \<le> 2 ^ 53 \<longrightarrow>
              N impl (g_sent (NewTicker impl sz es) ! j) = reading (es ! j))"
proof (intro allI impI)
  fix j assume j: "j < length (g_sent (NewTicker impl sz es))"
  let ?ps = "g_sent (NewTicker impl sz es)"
  from sent_are_snapshots [OF j] have nj: "p_n (?ps ! j) = float64_of_int64 (reading (es ! j))"
    by simp
  have mono: "fge (p_n (?ps ! j)) (p_n (?ps ! i))" if "i \<le> j" for i
  proof -
    from that j have i: "i < length ?ps" by simp
    from sent_are_snapshots [OF i] have ni: "p_n (?ps ! i) = float64_of_int64 (reading (es ! i))"
      by simp
    from assms j that have "sint (reading (es ! i)) \<le> sint (reading (es ! j))" by blast
    then show ?thesis unfolding ni nj by (rule float64_of_int64_mono)
  qed
  have "N impl (?ps ! j) = reading (es ! j)" if "\<bar>sint (reading (es ! j))\<bar> \<le> 2 ^ 53"
    unfolding N_def nj using that by (rule int64_of_float64_exact)
  with nj mono show "p_n (?ps ! j) = float64_of_int64 (reading (es ! j)) \<and>
           (\<forall>i\<le>j. fge (p_n (?ps ! j)) (p_n (?ps ! i))) \<and>
           (\<bar>sint (reading (es ! j))\<bar> \<le> 2 ^ 53 \<longrightarrow> N impl (?ps ! j) = reading (es ! j))"
    by blast
qed

theorem counts_follow_the_counter_witness:
  "2 < length (g_sent (NewTicker impl_amd64 100 example_run)) \<and>
   p_n (g_sent (NewTicker impl_amd64 100 example_run) ! 2) = float64_of_int64 (reading (example_run ! 2)) \<and>
   fge (p_n (g_sent (NewTicker impl_amd64 100 example_run) ! 2))
       (p_n (g_sent (NewTicker impl_amd64 100 example_run) ! 1)) \<and>
   \<bar>sint (reading (example_run ! 2))\<bar> \<le> 2 ^ 53 \<and>
   N impl_amd64 (g_sent (NewTicker impl_amd64 100 example_run) ! 2) = 50"
proof -
  let ?ps = "g_sent (NewTicker impl_amd64 100 example_run)"
  have len: "length ?ps = 4" by (simp add: example_run_result)
  have r: "reading (example_run ! 0) = 0" "reading (example_run ! 1) = 25"
    "reading (example_run ! 2) = 50" "reading (example_run ! 3) = 100"
    "reading (example_run ! Suc 0) = 25"
    by (simp_all add: example_run_def numeral_2_eq_2 numeral_3_eq_3)
  have "sint (reading (example_run ! i)) \<le> sint (reading (example_run ! j))"
    if "j < 4" "i \<le> j" for i j
  proof -
    from that have "j = 0 \<or> j = 1 \<or> j = 2 \<or> j = 3" by auto
    moreover from that have "i = 0 \<or> i = 1 \<or> i = 2 \<or> i = 3" by auto
    ultimately show ?thesis using that(2) by (auto simp: r)
  qed
  then have h: "\<forall>j<length ?ps. \<forall>i\<le>j.
             sint (reading (example_run ! i)) \<le> sint (reading (example_run ! j))"
    by (simp add: len)
  have 2: "2 < length ?ps" by (simp add: len)
  have b: "\<bar>sint (reading (example_run ! 2))\<bar> \<le> 2 ^ 53" by (simp add: r)
  from counts_follow_the_counter [OF h, rule_format, OF 2] 2 b r(3)
  show ?thesis by auto
qed

text \<open>
  C4 as stated fails: the reading \<open>2 ^ 53 + 1\<close> is stored as the float64 \<open>2 ^ 53\<close>, which
  is what \<^verbatim>\<open>N()\<close> returns (the size here is \<open>2 ^ 62\<close>).
\<close>

theorem counts_follow_the_counter_counterexample:
  "g_sent (NewTicker impl_amd64 4611686018427387904 [After 9007199254740993 1000]) =
     [\<lparr>p_n = Finite 9007199254740992, p_size = Finite 4611686018427387904, p_estimated = zero_time\<rparr>] \<and>
   N impl_amd64 (g_sent (NewTicker impl_amd64 4611686018427387904 [After 9007199254740993 1000]) ! 0) =
     9007199254740992 \<and>
   (9007199254740992 :: int64) \<noteq> 9007199254740993"
proof -
  have "float64_of_int 4611686018427387904 = Finite (of_int 1 * 2 powi 62)"
    using float64_round_exact [of 1 62 False] by (simp add: float64_of_int_def)
  then have s: "float64_of_int64 4611686018427387904 = Finite 4611686018427387904"
    by (simp add: float64_of_int64_def)
  show ?thesis
    by (simp add: NewTicker_def iteration_After snapshot_def Let_def s
      float64_of_int64_2p53_plus_1 IsZero_def zero_time_def N_def trunc_def in_int64_def)
qed

section \<open>The ratio of the estimate\<close>

lemma float64_round_Finite:
  assumes "2 powi lo \<le> x" "x \<le> 2 powi hi" "- 1074 \<le> lo" "hi \<le> 1023"
  shows "float64_round neg x = Finite (if neg then - round_mag x else round_mag x)"
    and "2 powi lo \<le> round_mag x" and "round_mag x \<le> 2 powi hi"
proof -
  have x: "0 < x" using pow2_pos [of lo] assms(1) by (rule less_le_trans)
  have "round_mag (2 powi lo) \<le> round_mag x" using pow2_pos assms(1) by (rule round_mag_mono)
  then show lo: "2 powi lo \<le> round_mag x" by (simp only: round_mag_pow2 [OF assms(3)])
  have "round_mag x \<le> round_mag (2 powi hi)" using x assms(2) by (rule round_mag_mono)
  moreover have "- 1074 \<le> hi"
  proof -
    from assms(1,2) have "(2::rat) powi lo \<le> 2 powi hi" by (rule order_trans)
    then have "lo \<le> hi" by (simp only: pow2_le_iff)
    with assms(3) show ?thesis by simp
  qed
  ultimately show hi: "round_mag x \<le> 2 powi hi" by (simp only: round_mag_pow2)
  have "(2::rat) powi hi < 2 powi 1024" using assms(4) by (simp only: pow2_less_iff)
  with hi have "round_mag x < 2 powi 1024" by (rule le_less_trans)
  then have 1: "\<not> 2 ^ 1024 \<le> round_mag x" by simp
  have "0 < round_mag x" using pow2_pos [of lo] lo by (rule less_le_trans)
  then have 2: "round_mag x \<noteq> 0" by simp
  have 3: "x \<noteq> 0" using x by simp
  show "float64_round neg x = Finite (if neg then - round_mag x else round_mag x)"
    unfolding float64_round_def Let_def by (simp only: 1 2 3 if_False)
qed

text \<open>The float64 of a positive int64 lies between 1 and \<open>2 ^ 63\<close>.\<close>

lemma float64_of_int64_positive:
  assumes "0 < sint c"
  obtains a where "float64_of_int64 c = Finite a" "a = round_mag (of_int (sint c))"
    "1 \<le> a" "a \<le> 2 ^ 63"
proof -
  define k where "k = sint c"
  have k: "1 \<le> k" "k \<le> 2 ^ 63" "\<bar>k\<bar> = k" "\<not> k < 0" "\<bar>k\<bar> \<le> 2 ^ 63"
    using assms sint64_range [of c] by (simp_all add: k_def)
  have "float64_of_int k = Finite (round_mag (of_int k))"
    using float64_of_int_Finite [OF k(5)] by (simp only: k(3,4) if_False)
  then have "float64_of_int64 c = Finite (round_mag (of_int (sint c)))"
    by (simp only: float64_of_int64_def k_def)
  moreover from round_mag_int_bounds [OF k(1,2)]
  have "1 \<le> round_mag (of_int (sint c))" "round_mag (of_int (sint c)) \<le> 2 ^ 63"
    by (simp_all only: k_def)
  ultimately show ?thesis using that by blast
qed

lemma fdiv_positive:
  assumes "1 \<le> a" "a \<le> 2 ^ 63" "1 \<le> b" "b \<le> 2 ^ 63"
  shows "fdiv (Finite a) (Finite b) = Finite (round_mag (a / b))"
    and "2 powi (- 63) \<le> round_mag (a / b)" and "round_mag (a / b) \<le> 2 powi 63"
proof -
  have b0: "0 < b" and a0: "0 < a" using assms by simp_all
  have lo: "2 powi (- 63) \<le> a / b"
  proof -
    have "1 / 2 ^ 63 \<le> 1 / b" using assms(4) b0 by (simp add: frac_le)
    also have "1 / b \<le> a / b" using assms(1) b0 by (simp add: divide_right_mono)
    finally show ?thesis by (simp add: power_int_minus_divide)
  qed
  have hi: "a / b \<le> 2 powi 63"
  proof -
    have "a / b \<le> a / 1" using assms(3) a0 by (intro divide_left_mono) simp_all
    also have "\<dots> \<le> 2 ^ 63" using assms(2) by simp
    finally show ?thesis by simp
  qed
  have "fdiv (Finite a) (Finite b) = float64_round False (a / b)"
    using a0 b0 by (simp add: fdiv_def)
  also have "\<dots> = Finite (round_mag (a / b))"
    using float64_round_Finite (1) [OF lo hi, of False] by simp
  finally show "fdiv (Finite a) (Finite b) = Finite (round_mag (a / b))" .
  show "2 powi (- 63) \<le> round_mag (a / b)" using float64_round_Finite (2) [OF lo hi] by simp
  show "round_mag (a / b) \<le> 2 powi 63" using float64_round_Finite (3) [OF lo hi] by simp
qed

text \<open>
  C9. With a positive size and readings that do not decrease, whenever iteration \<open>i\<close>
  takes the estimate branch (\<^verbatim>\<open>started\<close> is set in the state the first \<open>i\<close> events left), the
  reading of that tick is positive and the ratio \<^verbatim>\<open>progress.n / progress.size\<close> is a finite,
  positive float64: \<^verbatim>\<open>past / ratio\<close> divides by no zero.
\<close>

theorem ratio_is_nonzero:
  assumes size: "0 < sint sz"
    and mono: "\<forall>j<length (g_sent (NewTicker impl sz es)). \<forall>i\<le>j.
             sint (reading (es ! i)) \<le> sint (reading (es ! j))"
    and i: "i < length (g_sent (NewTicker impl sz es))"
    and started: "\<not> IsZero (g_started (NewTicker impl sz (take i es)))"
  shows "0 < sint (reading (es ! i)) \<and>
     (\<exists>r. fdiv (p_n (g_sent (NewTicker impl sz es) ! i)) (p_size (g_sent (NewTicker impl sz es) ! i)) = Finite r
          \<and> 0 < r)"
proof -
  let ?ps = "g_sent (NewTicker impl sz es)"
  let ?h = "NewTicker impl sz (take i es)"
  from sent_nth [OF i] have pre: "g_sent ?h = take i ?ps" by simp
  from started_needs_activity [OF started] obtain j where
    j: "j < length (g_sent ?h)" "Started (g_sent ?h ! j)" by blast
  with pre i have ji: "j < i" and sj: "Started (?ps ! j)" by simp_all
  from ji i have jl: "j < length ?ps" by simp
  from sent_are_snapshots [OF jl] sj have "0 < sint (reading (es ! j))"
    by (simp add: Started_def float64_of_int64_pos)
  moreover from mono i ji have "sint (reading (es ! j)) \<le> sint (reading (es ! i))" by simp
  ultimately have pos: "0 < sint (reading (es ! i))" by simp
  from float64_of_int64_positive [OF pos] obtain a where
    a: "float64_of_int64 (reading (es ! i)) = Finite a" "1 \<le> a" "a \<le> 2 ^ 63" by blast
  from float64_of_int64_positive [OF size] obtain b where
    b: "float64_of_int64 sz = Finite b" "1 \<le> b" "b \<le> 2 ^ 63" by blast
  from sent_are_snapshots [OF i] have f: "p_n (?ps ! i) = Finite a" "p_size (?ps ! i) = Finite b"
    by (simp_all add: a b)
  have "0 < round_mag (a / b)"
    using pow2_pos fdiv_positive (2) [OF a(2,3) b(2,3)] by (rule less_le_trans)
  with fdiv_positive (1) [OF a(2,3) b(2,3)] pos show ?thesis unfolding f by blast
qed

theorem ratio_is_nonzero_witness:
  "0 < sint (100 :: int64) \<and>
   2 < length (g_sent (NewTicker impl_amd64 100 example_run)) \<and>
   \<not> IsZero (g_started (NewTicker impl_amd64 100 (take 2 example_run))) \<and>
   0 < sint (reading (example_run ! 2)) \<and>
   fdiv (p_n (g_sent (NewTicker impl_amd64 100 example_run) ! 2))
        (p_size (g_sent (NewTicker impl_amd64 100 example_run) ! 2)) = Finite (1 / 2)"
proof -
  let ?ps = "g_sent (NewTicker impl_amd64 100 example_run)"
  have len: "length ?ps = 4" by (simp add: example_run_result)
  have r: "reading (example_run ! 0) = 0" "reading (example_run ! 1) = 25"
    "reading (example_run ! 2) = 50" "reading (example_run ! 3) = 100"
    "reading (example_run ! Suc 0) = 25"
    by (simp_all add: example_run_def numeral_2_eq_2 numeral_3_eq_3)
  have "sint (reading (example_run ! i)) \<le> sint (reading (example_run ! j))"
    if "j < 4" "i \<le> j" for i j
  proof -
    from that have "j = 0 \<or> j = 1 \<or> j = 2 \<or> j = 3" by auto
    moreover from that have "i = 0 \<or> i = 1 \<or> i = 2 \<or> i = 3" by auto
    ultimately show ?thesis using that(2) by (auto simp: r)
  qed
  then have h: "\<forall>j<length ?ps. \<forall>i\<le>j.
             sint (reading (example_run ! i)) \<le> sint (reading (example_run ! j))"
    by (simp add: len)
  have 2: "2 < length ?ps" by (simp add: len)
  have s: "0 < sint (100 :: int64)" by simp
  have "NewTicker impl_amd64 100 (take 2 example_run) =
     \<lparr>g_started = 2000,
      g_sent = [\<lparr>p_n = Finite 0, p_size = Finite 100, p_estimated = 0\<rparr>,
                \<lparr>p_n = Finite 25, p_size = Finite 100, p_estimated = 0\<rparr>],
      g_closed = False\<rparr>"
    by (simp add: example_run_def numeral_2_eq_2 NewTicker_def iteration_After snapshot_def
      Let_def float64_of_int64_small IsZero_def zero_time_def Started_def Complete_def
      fgt_def flt_def fge_def feq_def)
  then have st: "\<not> IsZero (g_started (NewTicker impl_amd64 100 (take 2 example_run)))"
    by (simp add: IsZero_def)
  have v: "fdiv (p_n (?ps ! 2)) (p_size (?ps ! 2)) = Finite (1 / 2)"
    by (simp add: example_run_result nth4 fdiv_small)
  from ratio_is_nonzero [OF s h 2 st] s 2 st v show ?thesis by blast
qed

section \<open>Percent\<close>

lemma ilog2_1: "ilog2 1 = 0"
  by (rule ilog2_unique) simp_all

lemma round_mag_rep:
  assumes "0 < x" "- 1022 \<le> ilog2 x"
  obtains M e where "round_mag x = of_int M * 2 powi e" "2 ^ 52 \<le> M" "M < 2 ^ 53"
proof -
  define s where "s = ilog2 x - 52"
  define M0 where "M0 = round_even (x / 2 powi s)"
  have rm: "round_mag x = of_int M0 * 2 powi s"
    using assms(2) by (simp add: round_mag_def Let_def s_def M0_def max_def)
  have lo: "2 ^ 52 \<le> M0"
  proof -
    from ilog2_bounds [OF assms(1)] have "2 powi ilog2 x \<le> x" by simp
    then have "of_int (2 ^ 52) * 2 powi s \<le> x"
      unfolding s_def by (simp only: pow2_split52 [of "ilog2 x"])
    then have "(of_int (2 ^ 52) :: rat) \<le> x / 2 powi s" by (simp only: div_scale_ge)
    then show ?thesis unfolding M0_def by (rule round_even_ge)
  qed
  have hi: "M0 \<le> 2 ^ 53"
  proof -
    from ilog2_bounds [OF assms(1)] have "x \<le> 2 powi (ilog2 x + 1)" by simp
    then have "x \<le> of_int (2 ^ 53) * 2 powi s"
      unfolding s_def by (simp only: pow2_split53 [of "ilog2 x"])
    then have "x / 2 powi s \<le> (of_int (2 ^ 53) :: rat)" by (simp only: div_scale_le)
    then show ?thesis unfolding M0_def by (rule round_even_le)
  qed
  show ?thesis
  proof (cases "M0 = 2 ^ 53")
    case False
    with hi have "M0 < 2 ^ 53" by simp
    with rm lo show ?thesis by (rule that)
  next
    case True
    have "round_mag x = of_int (2 ^ 52) * 2 powi (s + 1)"
      using pow2_add [of s 1] by (simp add: rm True)
    then show ?thesis by (rule that) simp_all
  qed
qed

text \<open>Two float64 values next to each other are more than half a unit in the last place apart.\<close>

lemma float_gap:
  fixes a b :: rat
  assumes a: "a = of_int M * 2 powi e" "2 ^ 52 \<le> M" "M < 2 ^ 53"
    and b: "b = of_int M' * 2 powi e'" "2 ^ 52 \<le> M'" "M' < 2 ^ 53"
    and ab: "a < b"
  shows "a + a / 2 ^ 53 < b"
proof -
  have ee: "e \<le> e'"
  proof (rule ccontr)
    assume "\<not> e \<le> e'"
    then have "e' + 1 \<le> e" by simp
    have "b < of_int (2 ^ 53) * 2 powi e'" unfolding b(1) using b(3) by (simp only: scaled_less)
    also have "\<dots> = of_int (2 ^ 52) * 2 powi (e' + 1)" using pow2_add [of e' 1] by simp
    also have "\<dots> \<le> of_int (2 ^ 52) * 2 powi e"
      using \<open>e' + 1 \<le> e\<close> by (simp add: pow2_le_iff)
    also have "\<dots> \<le> a" unfolding a(1) using a(2) by (simp only: scaled_mono)
    finally show False using ab by simp
  qed
  define d where "d = nat (e' - e)"
  have "2 powi e' = (2::rat) powi (e + int d)" using ee by (simp add: d_def)
  also have "\<dots> = 2 ^ d * 2 powi e" by (simp add: pow2_add)
  finally have b': "b = of_int (M' * 2 ^ d) * 2 powi e" by (simp add: b(1))
  from ab have "M < M' * 2 ^ d" unfolding a(1) b' by (simp only: scaled_less)
  then have "M + 1 \<le> M' * 2 ^ d" by simp
  then have "of_int (M + 1) * 2 powi e \<le> b" unfolding b' by (simp only: scaled_mono)
  then have 1: "a + 2 powi e \<le> b" by (simp add: a(1) algebra_simps)
  have "a < of_int (2 ^ 53) * 2 powi e" unfolding a(1) using a(3) by (simp only: scaled_less)
  then have "a / 2 ^ 53 < 2 powi e" by (simp add: pos_divide_less_eq mult.commute)
  with 1 show ?thesis by simp
qed

lemma float64_of_int64_gap:
  assumes "0 < sint c" "0 < sint sz"
    and "float64_of_int64 c = Finite a" "float64_of_int64 sz = Finite b" "a < b"
  shows "a + a / 2 ^ 53 < b"
proof -
  have n: "- 1022 \<le> ilog2 (of_int k)" "0 < (of_int k :: rat)" if "0 < k" for k :: int
  proof -
    from that show "0 < (of_int k :: rat)" by simp
    from that have "1 \<le> k" by simp
    then have "(of_int 1 :: rat) \<le> of_int k" by (simp only: of_int_le_iff)
    then have "(1::rat) \<le> of_int k" by simp
    then have "ilog2 1 \<le> ilog2 (of_int k)" by (intro ilog2_mono) simp_all
    then show "- 1022 \<le> ilog2 (of_int k)" by (simp add: ilog2_1)
  qed
  from float64_of_int64_positive [OF assms(1)] assms(3)
  have a: "a = round_mag (of_int (sint c))" by simp
  from float64_of_int64_positive [OF assms(2)] assms(4)
  have b: "b = round_mag (of_int (sint sz))" by simp
  from round_mag_rep [OF n(2) n(1), OF assms(1) assms(1)] obtain M e where
    M: "a = of_int M * 2 powi e" "2 ^ 52 \<le> M" "M < 2 ^ 53" unfolding a by blast
  from round_mag_rep [OF n(2) n(1), OF assms(2) assms(2)] obtain M' e' where
    M': "b = of_int M' * 2 powi e'" "2 ^ 52 \<le> M'" "M' < 2 ^ 53" unfolding b by blast
  from M M' assms(5) show ?thesis by (rule float_gap)
qed

lemma quotient_above_one:
  assumes "a + a / 2 ^ 53 < b" "0 < a"
  shows "1 + 1 / 2 ^ 52 \<le> round_mag (b / a)"
proof -
  define x where "x = b / a"
  have "a * (1 + 1 / 2 ^ 53) < b" using assms(1) by (simp add: algebra_simps)
  then have x: "1 + 1 / 2 ^ 53 < x" using assms(2) by (simp add: x_def pos_less_divide_eq mult.commute)
  show ?thesis unfolding x_def [symmetric]
  proof (cases "x < 2")
    case True
    have "2 powi 0 \<le> x" using x by simp
    moreover have "x < 2 powi (0 + 1)" using True by simp
    ultimately have rm: "round_mag x = of_int (round_even (x / 2 powi (- 52))) * 2 powi (- 52)"
      using round_mag_eq [of 0 x] by simp
    have "of_int (2 ^ 52) + 1 / 2 < x / 2 powi (- 52)"
      using x by (simp add: power_int_minus_divide algebra_simps)
    then have "2 ^ 52 + 1 \<le> round_even (x / 2 powi (- 52))" by (rule round_even_above_half)
    then have "of_int (2 ^ 52 + 1) * 2 powi (- 52) \<le> round_mag x"
      unfolding rm by (simp only: scaled_mono)
    then show "1 + 1 / 2 ^ 52 \<le> round_mag x" by (simp add: power_int_minus_divide algebra_simps)
  next
    case False
    then have "round_mag 2 \<le> round_mag x" by (intro round_mag_mono) simp_all
    moreover have "round_mag 2 = 2" using round_mag_int [of 2] by simp
    ultimately show "1 + 1 / 2 ^ 52 \<le> round_mag x" by simp
  qed
qed

lemma percent_below_100:
  assumes "1 + 1 / 2 ^ 52 \<le> q" "q \<le> 2 powi 63"
  shows "fdiv (Finite 100) (Finite q) = Finite (round_mag (100 / q))"
    and "0 < round_mag (100 / q)" and "round_mag (100 / q) < 100"
proof -
  have q: "0 < q" "1 \<le> q" using assms(1) by simp_all
  define w :: rat where "w = of_int 7036874417766399 * 2 powi (- 46)"
  have lo: "2 powi (- 57) \<le> 100 / q"
  proof -
    have "2 powi (- 57) * q \<le> 2 powi (- 57) * 2 powi 63" using assms(2) by simp
    also have "\<dots> = (2::rat) powi 6" using pow2_add [of "- 57" 63] by simp
    also have "\<dots> \<le> 100" by simp
    finally show ?thesis using q(1) by (simp add: pos_le_divide_eq)
  qed
  have up: "100 / q \<le> w"
  proof -
    have "100 / q \<le> 100 / (1 + 1 / 2 ^ 52)" using assms(1) by (intro divide_left_mono) simp_all
    also have "\<dots> \<le> w" by (simp add: w_def power_int_minus_divide)
    finally show ?thesis .
  qed
  have w100: "w < 100" by (simp add: w_def power_int_minus_divide)
  have hi: "100 / q \<le> 2 powi 7"
  proof -
    have "100 / q \<le> w" by (rule up)
    also have "w \<le> 2 powi 7" using w100 by simp
    finally show ?thesis .
  qed
  have x: "0 < 100 / q" using q(1) by simp
  have "fdiv (Finite 100) (Finite q) = float64_round False (100 / q)"
    using q(1) by (simp add: fdiv_def)
  also have "\<dots> = Finite (round_mag (100 / q))"
    using float64_round_Finite (1) [OF lo hi, of False] by simp
  finally show "fdiv (Finite 100) (Finite q) = Finite (round_mag (100 / q))" .
  show "0 < round_mag (100 / q)"
    using pow2_pos float64_round_Finite (2) [OF lo hi] by (rule less_le_trans) simp_all
  have "round_mag (100 / q) \<le> round_mag w" using x up by (rule round_mag_mono)
  also have "round_mag w = w" unfolding w_def by (rule round_mag_exact) simp_all
  finally show "round_mag (100 / q) < 100" using w100 by simp
qed

lemma fdiv_is_float64:
  assumes "a \<noteq> 0" "b \<noteq> 0" "is_float64 (a / b)"
  shows "fdiv (Finite a) (Finite b) = Finite (a / b)"
proof -
  define x where "x = \<bar>a / b\<bar>"
  have x: "x \<noteq> 0" "mag (Finite a) / mag (Finite b) = x" using assms(1,2) by (simp_all add: x_def)
  from assms have r: "round_mag x = x" "\<not> 2 ^ 1024 \<le> x" by (simp_all add: is_float64_def x_def)
  have s: "((a < 0) = (\<not> b < 0)) = (a / b < 0)"
    using assms(1,2) by (auto simp: divide_less_0_iff not_less le_less)
  have "fdiv (Finite a) (Finite b) = float64_round (a / b < 0) x"
    using assms(2) unfolding fdiv_def x(2) [symmetric] by (simp add: s)
  also have "\<dots> = Finite (if a / b < 0 then - x else x)"
    unfolding float64_round_def Let_def r(1) using x(1) r(2) by simp
  also have "(if a / b < 0 then - x else x) = a / b"
    unfolding x_def abs_if [of "a / b"] by simp
  finally show ?thesis .
qed

lemma Percent_bounds:
  assumes p: "p_n p = float64_of_int64 c" "p_size p = float64_of_int64 sz"
    and s: "Started p" and c: "\<not> Complete p"
  shows "flt (Finite 0) (Percent p) \<and> flt (Percent p) (Finite 100)"
proof -
  from s have c0: "0 < sint c" by (simp add: Started_def p float64_of_int64_pos)
  from float64_of_int64_positive [OF c0] obtain a where
    a: "float64_of_int64 c = Finite a" "1 \<le> a" "a \<le> 2 ^ 63" by blast
  obtain b where b: "float64_of_int64 sz = Finite b"
    using float64_of_int64_Finite [of sz] by blast
  from c have ab: "a < b" by (simp add: Complete_def p a b fge_def flt_def feq_def)
  with a(2) have "flt (Finite 0) (Finite b)" by (simp add: flt_def)
  then have sz0: "0 < sint sz" using float64_of_int64_pos [of sz] by (simp add: b fgt_def)
  from float64_of_int64_positive [OF sz0] b have b': "1 \<le> b" "b \<le> 2 ^ 63" by auto
  have a0: "0 < a" using a(2) by simp
  define q where "q = round_mag (b / a)"
  from float64_of_int64_gap [OF c0 sz0 a(1) b ab] have q1: "1 + 1 / 2 ^ 52 \<le> q"
    unfolding q_def using a0 by (rule quotient_above_one)
  have qd: "fdiv (Finite b) (Finite a) = Finite q" and q2: "q \<le> 2 powi 63"
    unfolding q_def using fdiv_positive [OF b' a(2,3)] by simp_all
  note P = percent_below_100 [OF q1 q2]
  have "\<not> feq (p_n p) (Finite 0)" "\<not> feq (p_n p) (p_size p)"
    using a0 ab by (simp_all add: p a b feq_def)
  then have "Percent p = Finite (round_mag (100 / q))"
    by (simp add: Percent_def) (simp add: p a b qd P(1))
  with P(2,3) show ?thesis by (simp add: flt_def)
qed

text \<open>
  C2, as amended. \<^verbatim>\<open>Percent\<close> is 0 when the count equals 0; it is 100 when the count is
  not 0 and equals the size; otherwise it is \<^verbatim>\<open>100.0 / (size / count)\<close> in float64
  arithmetic. That value is \<open>100 * count / size\<close> exactly when the size is not 0 and both
  \<open>size / count\<close> and \<open>100 * count / size\<close> are float64 values, and for a snapshot built from
  int64 values that is started and not complete it lies strictly between 0 and 100.
\<close>

theorem percent_cases:
  "(feq (p_n p) (Finite 0) \<longrightarrow> Percent p = Finite 0) \<and>
   (\<not> feq (p_n p) (Finite 0) \<and> feq (p_n p) (p_size p) \<longrightarrow> Percent p = Finite 100) \<and>
   (\<not> feq (p_n p) (Finite 0) \<and> \<not> feq (p_n p) (p_size p) \<longrightarrow>
      Percent p = fdiv (Finite 100) (fdiv (p_size p) (p_n p))) \<and>
   (p_n p = Finite a \<and> p_size p = Finite b \<and> a \<noteq> 0 \<and> b \<noteq> 0 \<and> a \<noteq> b \<and>
    is_float64 (b / a) \<and> is_float64 (100 * a / b) \<longrightarrow> Percent p = Finite (100 * a / b)) \<and>
   (p_n p = float64_of_int64 c \<and> p_size p = float64_of_int64 sz \<and> Started p \<and> \<not> Complete p \<longrightarrow>
      flt (Finite 0) (Percent p) \<and> flt (Percent p) (Finite 100))"
proof (intro conjI impI)
  show "Percent p = Finite 0" if "feq (p_n p) (Finite 0)"
    using that by (simp add: Percent_def)
  show "Percent p = Finite 100" if "\<not> feq (p_n p) (Finite 0) \<and> feq (p_n p) (p_size p)"
    using that by (simp add: Percent_def)
  show "Percent p = fdiv (Finite 100) (fdiv (p_size p) (p_n p))"
    if "\<not> feq (p_n p) (Finite 0) \<and> \<not> feq (p_n p) (p_size p)"
    using that by (simp add: Percent_def)
  show "Percent p = Finite (100 * a / b)"
    if h: "p_n p = Finite a \<and> p_size p = Finite b \<and> a \<noteq> 0 \<and> b \<noteq> 0 \<and> a \<noteq> b \<and>
      is_float64 (b / a) \<and> is_float64 (100 * a / b)"
  proof -
    from h have 1: "fdiv (Finite b) (Finite a) = Finite (b / a)" by (intro fdiv_is_float64) simp_all
    from h have "is_float64 (100 / (b / a))" by simp
    moreover from h have "b / a \<noteq> 0" by simp
    ultimately have 2: "fdiv (Finite 100) (Finite (b / a)) = Finite (100 / (b / a))"
      by (intro fdiv_is_float64) simp_all
    from h show ?thesis by (simp add: Percent_def feq_def 1 2)
  qed
  show "flt (Finite 0) (Percent p)" "flt (Percent p) (Finite 100)"
    if "p_n p = float64_of_int64 c \<and> p_size p = float64_of_int64 sz \<and> Started p \<and> \<not> Complete p"
    using that Percent_bounds [of p c sz] by simp_all
qed

lemma is_float64_int: "0 < k \<Longrightarrow> k \<le> 2 ^ 53 \<Longrightarrow> is_float64 (of_int k)"
proof -
  assume k: "0 < k" "k \<le> 2 ^ 53"
  then have "round_mag (of_int k) = of_int k" by (rule round_mag_int)
  moreover have "(of_int k :: rat) < 2 ^ 1024"
  proof -
    have "(of_int k :: rat) \<le> of_int (2 ^ 53)" using k(2) by (simp only: of_int_le_iff)
    also have "\<dots> < 2 ^ 1024" by simp
    finally show ?thesis .
  qed
  ultimately show ?thesis using k(1) by (simp add: is_float64_def)
qed

theorem percent_cases_witness:
  "Percent \<lparr>p_n = Finite 0, p_size = Finite 100, p_estimated = 0\<rparr> = Finite 0 \<and>
   Percent \<lparr>p_n = Finite 100, p_size = Finite 100, p_estimated = 0\<rparr> = Finite 100 \<and>
   Percent \<lparr>p_n = Finite 25, p_size = Finite 100, p_estimated = 0\<rparr> =
     fdiv (Finite 100) (fdiv (Finite 100) (Finite 25)) \<and>
   Percent \<lparr>p_n = Finite 25, p_size = Finite 100, p_estimated = 0\<rparr> = Finite 25 \<and>
   Started \<lparr>p_n = Finite 25, p_size = Finite 100, p_estimated = 0\<rparr> \<and>
   \<not> Complete \<lparr>p_n = Finite 25, p_size = Finite 100, p_estimated = 0\<rparr> \<and>
   flt (Finite 0) (Percent \<lparr>p_n = Finite 25, p_size = Finite 100, p_estimated = 0\<rparr>) \<and>
   flt (Percent \<lparr>p_n = Finite 25, p_size = Finite 100, p_estimated = 0\<rparr>) (Finite 100)"
proof -
  let ?p0 = "\<lparr>p_n = Finite 0, p_size = Finite 100, p_estimated = 0\<rparr>"
  let ?p100 = "\<lparr>p_n = Finite 100, p_size = Finite 100, p_estimated = 0\<rparr>"
  let ?p25 = "\<lparr>p_n = Finite 25, p_size = Finite 100, p_estimated = 0\<rparr>"
  have h0: "feq (p_n ?p0) (Finite 0)" by (simp add: feq_def)
  have h100: "\<not> feq (p_n ?p100) (Finite 0) \<and> feq (p_n ?p100) (p_size ?p100)"
    by (simp add: feq_def)
  have h25: "\<not> feq (p_n ?p25) (Finite 0) \<and> \<not> feq (p_n ?p25) (p_size ?p25)"
    by (simp add: feq_def)
  have f: "p_n ?p25 = Finite 25 \<and> p_size ?p25 = Finite 100 \<and> (25::rat) \<noteq> 0 \<and> (100::rat) \<noteq> 0 \<and>
    (25::rat) \<noteq> 100 \<and> is_float64 (100 / 25) \<and> is_float64 (100 * 25 / 100)"
    using is_float64_int [of 4] is_float64_int [of 25] by simp
  have s: "Started ?p25" "\<not> Complete ?p25"
    by (simp_all add: Started_def Complete_def fgt_def flt_def fge_def feq_def)
  have i: "p_n ?p25 = float64_of_int64 25 \<and> p_size ?p25 = float64_of_int64 100 \<and>
    Started ?p25 \<and> \<not> Complete ?p25"
    using s by (simp add: float64_of_int64_small)
  have e: "fdiv (Finite 100) (fdiv (p_size ?p25) (p_n ?p25)) =
    fdiv (Finite 100) (fdiv (Finite 100) (Finite 25))" "Finite (100 * 25 / 100) = Finite 25"
    by simp_all
  from percent_cases [of ?p0 0 100 0 100] h0 have 1: "Percent ?p0 = Finite 0" by blast
  from percent_cases [of ?p100 100 100 100 100] h100 have 2: "Percent ?p100 = Finite 100" by blast
  from percent_cases [of ?p25 25 100 25 100] h25 f i have 3:
    "Percent ?p25 = fdiv (Finite 100) (fdiv (p_size ?p25) (p_n ?p25))"
    "Percent ?p25 = Finite (100 * 25 / 100)"
    "flt (Finite 0) (Percent ?p25)" "flt (Percent ?p25) (Finite 100)" by blast+
  from 1 2 3(1) [unfolded e] 3(2) [unfolded e] 3(3,4) s show ?thesis by blast
qed

lemma round_mag_6_5: "round_mag (6 / 5) = 5404319552844595 / 2 ^ 52"
  using round_mag_eq [of 0 "6 / 5"] by (simp add: round_even_def Let_def floor_rat_numeral)

lemma round_mag_percent_5_6:
  "round_mag (100 / (5404319552844595 / 2 ^ 52)) = 5864062014805334 / 2 ^ 46"
  using round_mag_eq [of 6 "100 / (5404319552844595 / 2 ^ 52)"]
  by (simp add: round_even_def Let_def floor_rat_numeral)

lemma round_mag_250_3: "round_mag (100 * 5 / 6) = 5864062014805333 / 2 ^ 46"
  using round_mag_eq [of 6 "100 * 5 / 6"] by (simp add: round_even_def Let_def floor_rat_numeral)

text \<open>
  C2 as stated fails. With count 200 and size 100, neither 0 nor the size, \<^verbatim>\<open>Percent\<close> is 200,
  not below 100. With count 5 and size 6 it is \<open>5864062014805334 / 2 ^ 46\<close>, one unit in the
  last place above the float64 nearest to \<open>100 * 5 / 6\<close>.
\<close>

theorem percent_counterexample:
  "\<not> feq (Finite 200) (Finite 0) \<and> \<not> feq (Finite 200) (Finite 100) \<and>
   Percent \<lparr>p_n = Finite 200, p_size = Finite 100, p_estimated = 0\<rparr> = Finite 200 \<and>
   \<not> flt (Finite 200) (Finite 100) \<and>
   Percent \<lparr>p_n = Finite 5, p_size = Finite 6, p_estimated = 0\<rparr> = Finite (5864062014805334 / 2 ^ 46) \<and>
   round_mag (100 * 5 / 6) = 5864062014805333 / 2 ^ 46"
proof -
  have 1: "fdiv (Finite 100) (Finite 200) = Finite (1 / 2)"
    using fdiv_Finite_exact [of 200 100 1 "- 1"] by simp
  have 2: "fdiv (Finite 100) (Finite (1 / 2)) = Finite 200"
    using fdiv_Finite_exact [of "1 / 2" 100 200 0] by simp
  have 3: "fdiv (Finite 6) (Finite 5) = Finite (round_mag (6 / 5))"
    using fdiv_positive (1) [of 6 5] by simp
  have 4: "fdiv (Finite 100) (Finite (5404319552844595 / 2 ^ 52)) =
      Finite (round_mag (100 / (5404319552844595 / 2 ^ 52)))"
    by (rule percent_below_100) simp_all
  have a: "\<not> feq (Finite 200) (Finite 0)" "\<not> feq (Finite 200) (Finite 100)"
    "\<not> flt (Finite 200) (Finite 100)" by (simp_all add: feq_def flt_def)
  have b: "Percent \<lparr>p_n = Finite 200, p_size = Finite 100, p_estimated = 0\<rparr> = Finite 200"
    by (simp add: Percent_def feq_def 1 2)
  have "Percent \<lparr>p_n = Finite 5, p_size = Finite 6, p_estimated = 0\<rparr> =
      fdiv (Finite 100) (fdiv (Finite 6) (Finite 5))"
    by (simp add: Percent_def feq_def)
  also have "\<dots> = Finite (5864062014805334 / 2 ^ 46)"
    by (simp only: 3 round_mag_6_5 4 round_mag_percent_5_6)
  finally show ?thesis using a b round_mag_250_3 by blast
qed

section \<open>The estimate\<close>














section \<open>Counts and durations beyond the exact range\<close>

lemma float64_of_int64_2p53: "float64_of_int64 9007199254740992 = Finite 9007199254740992"
  by (simp add: float64_of_int64_exact)

text \<open>
  C3 as stated fails. With the size \<open>2 ^ 53 + 1\<close>, a tick that reads \<open>2 ^ 53\<close>, a count below
  the size, sends a complete snapshot (both are the float64 \<open>2 ^ 53\<close>) and the goroutine
  returns; the tick on which the count reaches the size sends nothing.
\<close>

theorem complete_closes_channel_counterexample:
  "sint (9007199254740992 :: int64) < sint (9007199254740993 :: int64) \<and>
   NewTicker impl_amd64 9007199254740993 [After 9007199254740992 1000, After 9007199254740993 2000] =
     \<lparr>g_started = 1000,
      g_sent = [\<lparr>p_n = Finite 9007199254740992, p_size = Finite 9007199254740992,
                 p_estimated = zero_time\<rparr>],
      g_closed = True\<rparr> \<and>
   Complete \<lparr>p_n = Finite 9007199254740992, p_size = Finite 9007199254740992,
             p_estimated = zero_time\<rparr>"
  by (simp add: NewTicker_def iteration_After snapshot_def Let_def float64_of_int64_2p53
      float64_of_int64_2p53_plus_1 IsZero_def zero_time_def Started_def Complete_def
      fgt_def flt_def fge_def feq_def)







end
